theory Spec2Isabelle
  imports Main "HOL-Library.Multiset"
begin

section \<open>Data structures\<close>

text \<open>
  The two dataclasses of \<^verbatim>\<open>edh-anti-meta.py\<close>.  A Python \<^verbatim>\<open>str\<close> is a \<open>string\<close>
  (its UTF-8 bytes), a Python \<^verbatim>\<open>int\<close> is an \<open>int\<close>, an \<^verbatim>\<open>Optional[...]\<close> field is an
  \<open>option\<close>.  Character classes (\<^verbatim>\<open>lower\<close>, \<^verbatim>\<open>strip\<close>, \<^verbatim>\<open>\d\<close>, \<^verbatim>\<open>\s\<close>) are modelled on
  ASCII; the model is exact for ASCII text.
\<close>

record Commander =
  name :: string
  edhrec_route_url :: string

record Result =
  name :: string
  edhrec_url :: string
  decks :: "int option"
  error :: "string option"

text \<open>
  Exceptions are values.  Every constructor stands for a subclass of Python's
  \<^verbatim>\<open>Exception\<close> and carries \<^verbatim>\<open>str(e)\<close>.  \<open>ClientError\<close> covers what the \<^verbatim>\<open>aiohttp\<close>
  session raises (connection failures, timeouts, \<^verbatim>\<open>raise_for_status\<close>, undecodable
  bodies).
\<close>

datatype exn =
    ClientError string
  | ValueError string
  | OverflowError string
  | IndexError string

fun str_exn :: "exn \<Rightarrow> string" where
  "str_exn (ClientError m) = m"
| "str_exn (ValueError m) = m"
| "str_exn (OverflowError m) = m"
| "str_exn (IndexError m) = m"

text \<open>
  The fields of the \<^verbatim>\<open>argparse\<close> namespace that the modelled code reads
  (\<^verbatim>\<open>parse_args\<close>); \<^verbatim>\<open>--delay\<close> and \<^verbatim>\<open>--csv\<close> only drive pacing and rendering.
  \<open>default_args\<close> holds the defaults that \<^verbatim>\<open>parse_args\<close> declares.
\<close>

record args =
  bottom_k :: int
  concurrency :: int
  only_positive :: bool
  include_errors :: bool
  include_partners :: bool
  include_backgrounds :: bool
  include_companions :: bool
  include_doctors_companions :: bool
  include_funny_sets :: bool
  include_vanilla :: bool
  include_ptk :: bool
  ptk_strict :: bool
  include_doctors :: bool
  include_recent :: bool
  recent_days :: int

definition default_args :: args where
  "default_args =
     \<lparr>bottom_k = 20, concurrency = 8, only_positive = False, include_errors = False,
      include_partners = False, include_backgrounds = False, include_companions = False,
      include_doctors_companions = False, include_funny_sets = False,
      include_vanilla = False, include_ptk = False, ptk_strict = False,
      include_doctors = False, include_recent = False, recent_days = 90\<rparr>"

text \<open>
  A Scryfall card is a JSON object; the code reads it with \<^verbatim>\<open>card.get(key)\<close>.  The record
  has one optional field for each key the modelled code reads: \<open>None\<close> when the key is
  absent (or \<^verbatim>\<open>null\<close>), \<open>Some s\<close> for a string value.  \<open>card_id\<close> is the key \<^verbatim>\<open>"id"\<close> and
  \<open>set_code\<close> the key \<^verbatim>\<open>"set"\<close>.
\<close>

record card =
  type_line :: "string option"
  oracle_id :: "string option"
  card_id :: "string option"
  set_type :: "string option"
  oracle_text :: "string option"
  released_at :: "string option"
  set_name :: "string option"
  set_code :: "string option"
  prints_search_uri :: "string option"

text \<open>The keyword arguments of \<^verbatim>\<open>apply_filters_async\<close>.\<close>

record filters =
  exclude_funny :: bool
  exclude_partner :: bool
  exclude_background :: bool
  exclude_companion :: bool
  exclude_doctors_companion :: bool
  exclude_vanilla :: bool
  exclude_recent :: bool
  recent_days :: int
  exclude_ptk :: bool
  ptk_strict :: bool
  exclude_doctors :: bool
  concurrency :: int

text \<open>
  One page of the \<^verbatim>\<open>prints_search_uri\<close> listing, as \<^verbatim>\<open>is_ptk_strict\<close> reads it: the
  \<^verbatim>\<open>"set"\<close> value of every entry of \<^verbatim>\<open>data.get("data", [])\<close> and \<^verbatim>\<open>data.get("next_page")\<close>.
\<close>

record prints_page =
  data :: "string option list"
  next_page :: "string option"

section \<open>Strings\<close>

definition is_digit :: "char \<Rightarrow> bool" where
  "is_digit c = (c \<in> set ''0123456789'')"

text \<open>The ASCII characters for which \<^verbatim>\<open>str.isspace\<close> holds.\<close>

definition is_space :: "char \<Rightarrow> bool" where
  "is_space c =
     (c \<in> set [CHR 0x09, CHR 0x0A, CHR 0x0B, CHR 0x0C, CHR 0x0D,
                CHR 0x1C, CHR 0x1D, CHR 0x1E, CHR 0x1F, CHR 0x20])"

definition lower_char :: "char \<Rightarrow> char" where
  "lower_char c =
     (case map_of (zip ''ABCDEFGHIJKLMNOPQRSTUVWXYZ'' ''abcdefghijklmnopqrstuvwxyz'') c of
        Some l \<Rightarrow> l
      | None \<Rightarrow> c)"

definition lower :: "string \<Rightarrow> string" where
  "lower s = map lower_char s"

definition strip :: "string \<Rightarrow> string" where
  "strip s = rev (dropWhile is_space (rev (dropWhile is_space s)))"

fun starts_with :: "string \<Rightarrow> string \<Rightarrow> bool" where
  "starts_with s [] = True"
| "starts_with [] (p # ps) = False"
| "starts_with (c # cs) (p # ps) = (c = p \<and> starts_with cs ps)"

text \<open>\<open>contains s sub\<close> is Python's \<^verbatim>\<open>sub in s\<close>.\<close>

fun contains :: "string \<Rightarrow> string \<Rightarrow> bool" where
  "contains [] sub = (sub = [])"
| "contains (c # cs) sub = (starts_with (c # cs) sub \<or> contains cs sub)"

text \<open>\<^verbatim>\<open>x or ""\<close> for an optional string \<open>x\<close>.\<close>

definition or_empty :: "string option \<Rightarrow> string" where
  "or_empty x = (case x of None \<Rightarrow> [] | Some s \<Rightarrow> s)"

fun show_nat :: "nat \<Rightarrow> string" where
  "show_nat n =
     (if n < 10 then [''0123456789'' ! n]
      else show_nat (n div 10) @ [''0123456789'' ! (n mod 10)])"

declare show_nat.simps [simp del]

section \<open>Scryfall helpers\<close>

definition is_commander_face :: "card \<Rightarrow> bool" where
  "is_commander_face c =
     (let tl = or_empty (type_line c)
      in contains tl ''Legendary'' \<and> contains tl ''Creature'')"

text \<open>
  \<^verbatim>\<open>card.get("oracle_id") or card.get("id")\<close>: an absent or empty \<^verbatim>\<open>oracle_id\<close> gives
  the \<^verbatim>\<open>id\<close>, which may itself be absent (the key is then \<^verbatim>\<open>None\<close>).
\<close>

definition commander_key :: "card \<Rightarrow> string option" where
  "commander_key c =
     (case oracle_id c of
        None \<Rightarrow> card_id c
      | Some k \<Rightarrow> (if k = [] then card_id c else Some k))"

text \<open>
  The dictionary \<^verbatim>\<open>by_oracle\<close> keeps its keys in insertion order, and
  \<^verbatim>\<open>list(by_oracle.values())\<close> reads them in that order: an association list to which a
  new key is appended.
\<close>

fun collapse_loop ::
  "(string option \<times> card) list \<Rightarrow> card list \<Rightarrow> (string option \<times> card) list" where
  "collapse_loop by_oracle [] = by_oracle"
| "collapse_loop by_oracle (c # cs) =
     (if \<not> is_commander_face c then collapse_loop by_oracle cs
      else
        (let k = commander_key c
         in if map_of by_oracle k = None
            then collapse_loop (by_oracle @ [(k, c)]) cs
            else collapse_loop by_oracle cs))"

definition collapse_by_oracle :: "card list \<Rightarrow> card list" where
  "collapse_by_oracle cards = map snd (collapse_loop [] cards)"

section \<open>Filter predicates\<close>

definition PARTNER_MARKERS :: "string list" where
  "PARTNER_MARKERS = [''partner with'', ''partner'', ''friends forever'']"

definition BACKGROUND_MARKER :: string where
  "BACKGROUND_MARKER = ''choose a background''"

definition COMPANION_MARKER :: string where
  "COMPANION_MARKER = ''companion''"

text \<open>The second marker has the apostrophe U+2019, three bytes in UTF-8.\<close>

definition DOCTORS_COMPANION_MARKERS :: "string list" where
  "DOCTORS_COMPANION_MARKERS =
     [''doctor'' @ [CHR 0x27] @ ''s companion'',
      ''doctor'' @ [CHR 0xE2, CHR 0x80, CHR 0x99] @ ''s companion'']"

definition is_funny_set :: "card \<Rightarrow> bool" where
  "is_funny_set c = (set_type c = Some ''funny'')"

definition has_partner :: "card \<Rightarrow> bool" where
  "has_partner c =
     (let text = lower (or_empty (oracle_text c))
      in list_ex (\<lambda>m. contains text m) PARTNER_MARKERS)"

definition has_background_ability :: "card \<Rightarrow> bool" where
  "has_background_ability c =
     (let text = lower (or_empty (oracle_text c)) in contains text BACKGROUND_MARKER)"

definition has_companion :: "card \<Rightarrow> bool" where
  "has_companion c =
     (let text = lower (or_empty (oracle_text c)) in contains text COMPANION_MARKER)"

definition has_doctors_companion :: "card \<Rightarrow> bool" where
  "has_doctors_companion c =
     (let text = lower (or_empty (oracle_text c))
      in list_ex (\<lambda>m. contains text m) DOCTORS_COMPANION_MARKERS)"

definition is_vanilla :: "card \<Rightarrow> bool" where
  "is_vanilla c =
     (let text = strip (or_empty (oracle_text c)) in length text = 0)"

text \<open>
  \<^verbatim>\<open>is_recent\<close> depends on two things outside the repository, taken as parameters:
  \<open>strptime\<close> is \<^verbatim>\<open>datetime.strptime(ra, "%Y-%m-%d").date()\<close>, giving the day number of
  the date (\<^verbatim>\<open>date.toordinal\<close>) or \<open>None\<close> when it raises, and \<open>today\<close> is the day number of
  \<^verbatim>\<open>datetime.now(UTC).date()\<close>.  The difference of two dates is a number of days;
  \<^verbatim>\<open>timedelta(days=days)\<close> raises \<^verbatim>\<open>OverflowError\<close> beyond 999999999 days, outside the
  \<^verbatim>\<open>try\<close> block.
\<close>

definition timedelta :: "int \<Rightarrow> exn + int" where
  "timedelta days =
     (if 2147483647 < \<bar>days\<bar>
      then Inl (OverflowError ''Python int too large to convert to C int'')
      else if 999999999 < \<bar>days\<bar>
      then Inl (OverflowError
             (''days='' @ (if days < 0 then ''-'' else []) @ show_nat (nat \<bar>days\<bar>)
                @ ''; must have magnitude <= 999999999''))
      else Inr days)"

definition is_recent ::
  "(string \<Rightarrow> int option) \<Rightarrow> int \<Rightarrow> card \<Rightarrow> int \<Rightarrow> exn + bool" where
  "is_recent strptime today c days =
     (if days \<le> 0 then Inr False
      else
        (case released_at c of
           None \<Rightarrow> Inr False
         | Some ra \<Rightarrow>
             if ra = [] then Inr False
             else
               (case strptime ra of
                  None \<Rightarrow> Inr False
                | Some rel_date \<Rightarrow>
                    (case timedelta days of
                       Inl e \<Rightarrow> Inl e
                     | Inr d \<Rightarrow> Inr (today - rel_date \<le> d)))))"

definition is_doctor :: "card \<Rightarrow> bool" where
  "is_doctor c =
     (let tl = lower (or_empty (type_line c));
          sn = lower (or_empty (set_name c))
      in contains sn ''doctor who'' \<and> contains tl ''time lord'')"

definition looks_like_ptk_fast :: "card \<Rightarrow> bool" where
  "looks_like_ptk_fast c =
     (let sc = lower (or_empty (set_code c));
          sn = lower (or_empty (set_name c))
      in sc = ''ptk'' \<or> contains sn ''portal three kingdoms'')"

text \<open>
  \<^verbatim>\<open>is_ptk_strict\<close> follows \<^verbatim>\<open>next_page\<close> links for as long as the server supplies them.
  The server is a parameter \<open>get\<close>: the page behind a URI, or the exception that
  \<^verbatim>\<open>session.get\<close>, \<^verbatim>\<open>raise_for_status\<close> or \<^verbatim>\<open>r.json()\<close> raises for it.  The loop need not
  end (a server may link its pages in a cycle), so it is a partial function: \<open>None\<close> is
  a run that never returns.  \<open>scan_printings\<close> is the body of the \<^verbatim>\<open>try\<close> block, with
  \<open>Inl\<close> for an exception that leaves it.
\<close>

partial_function (option) scan_printings ::
  "(string \<Rightarrow> exn + prints_page) \<Rightarrow> string option \<Rightarrow> (exn + bool) option" where
  "scan_printings get uri =
     (case uri of
        None \<Rightarrow> Some (Inr False)
      | Some u \<Rightarrow>
          if u = [] then Some (Inr False)
          else
            (case get u of
               Inl e \<Rightarrow> Some (Inl e)
             | Inr page \<Rightarrow>
                 if list_ex (\<lambda>printing. lower (or_empty printing) = ''ptk'') (data page)
                 then Some (Inr True)
                 else scan_printings get (next_page page)))"

definition is_ptk_strict ::
  "(string \<Rightarrow> exn + prints_page) \<Rightarrow> card \<Rightarrow> (exn + bool) option" where
  "is_ptk_strict get c =
     (case prints_search_uri c of
        None \<Rightarrow> Some (Inr (looks_like_ptk_fast c))
      | Some uri \<Rightarrow>
          if uri = [] then Some (Inr (looks_like_ptk_fast c))
          else
            (case scan_printings get (Some uri) of
               None \<Rightarrow> None
             | Some (Inl e) \<Rightarrow> Some (Inr (looks_like_ptk_fast c))
             | Some (Inr found) \<Rightarrow> Some (Inr found)))"

section \<open>Applying the filters\<close>

text \<open>
  The first pass of \<^verbatim>\<open>apply_filters_async\<close>: whether the chain of \<^verbatim>\<open>continue\<close> statements
  drops a card.  The tests run in the order of the source and stop at the first that
  holds, so \<^verbatim>\<open>is_recent\<close> is only called for a card the earlier tests keep.
\<close>

definition excluded_sync ::
  "(string \<Rightarrow> int option) \<Rightarrow> int \<Rightarrow> filters \<Rightarrow> card \<Rightarrow> exn + bool" where
  "excluded_sync strptime today f c =
     (if exclude_funny f \<and> is_funny_set c then Inr True
      else if exclude_partner f \<and> has_partner c then Inr True
      else if exclude_background f \<and> has_background_ability c then Inr True
      else if exclude_companion f \<and> has_companion c then Inr True
      else if exclude_doctors_companion f \<and> has_doctors_companion c then Inr True
      else if exclude_vanilla f \<and> is_vanilla c then Inr True
      else
        (case (if exclude_recent f
               then is_recent strptime today c (filters.recent_days f)
               else Inr False) of
           Inl e \<Rightarrow> Inl e
         | Inr recent \<Rightarrow>
             if recent then Inr True
             else Inr (exclude_doctors f \<and> is_doctor c)))"

fun prelim_filter ::
  "(string \<Rightarrow> int option) \<Rightarrow> int \<Rightarrow> filters \<Rightarrow> card list \<Rightarrow> exn + card list" where
  "prelim_filter strptime today f [] = Inr []"
| "prelim_filter strptime today f (c # cs) =
     (case excluded_sync strptime today f c of
        Inl e \<Rightarrow> Inl e
      | Inr drop_it \<Rightarrow>
          (case prelim_filter strptime today f cs of
             Inl e \<Rightarrow> Inl e
           | Inr prelim \<Rightarrow> Inr (if drop_it then prelim else c # prelim)))"

text \<open>
  Strict mode runs one \<^verbatim>\<open>check\<close> per card under a semaphore and collects the kept cards
  as the checks complete.  The answers of \<open>get\<close> do not depend on the schedule, so the
  checks are modelled one after the other; the order of the output list is then one of
  the completion orders the scheduler may produce.
\<close>

fun strict_checks ::
  "(string \<Rightarrow> exn + prints_page) \<Rightarrow> card list \<Rightarrow> (exn + card list) option" where
  "strict_checks get [] = Some (Inr [])"
| "strict_checks get (c # cs) =
     (case is_ptk_strict get c of
        None \<Rightarrow> None
      | Some (Inl e) \<Rightarrow> Some (Inl e)
      | Some (Inr is_ptk) \<Rightarrow>
          (case strict_checks get cs of
             None \<Rightarrow> None
           | Some (Inl e) \<Rightarrow> Some (Inl e)
           | Some (Inr out) \<Rightarrow> Some (Inr (if is_ptk then out else c # out))))"

definition apply_filters_async ::
  "(string \<Rightarrow> exn + prints_page) \<Rightarrow> (string \<Rightarrow> int option) \<Rightarrow> int \<Rightarrow> filters \<Rightarrow>
     card list \<Rightarrow> (exn + card list) option" where
  "apply_filters_async get strptime today f pool =
     (case prelim_filter strptime today f pool of
        Inl e \<Rightarrow> Some (Inl e)
      | Inr prelim \<Rightarrow>
          if \<not> exclude_ptk f then Some (Inr prelim)
          else if \<not> filters.ptk_strict f
          then Some (Inr (filter (\<lambda>c. \<not> looks_like_ptk_fast c) prelim))
          else strict_checks get prelim)"

text \<open>
  \<^verbatim>\<open>asyncio.Semaphore(value)\<close> raises \<^verbatim>\<open>ValueError\<close> for a negative value; otherwise the
  semaphore admits \<open>value\<close> holders at a time.  \<open>apply_filters_sem\<close> is the semaphore of
  line 223, created in strict mode.
\<close>

definition Semaphore :: "int \<Rightarrow> exn + int" where
  "Semaphore v =
     (if v < 0 then Inl (ValueError ''Semaphore initial value must be >= 0'') else Inr v)"

definition apply_filters_sem :: "filters \<Rightarrow> exn + int" where
  "apply_filters_sem f = Semaphore (max 2 (filters.concurrency f))"

section \<open>EDHREC fetch\<close>

text \<open>
  \<^verbatim>\<open>DECKS_RE = re.compile(r'(\d[\d,]*)\s+decks', re.I)\<close>.  \<open>DECKS_RE_match\<close> matches the
  pattern at the start of a string and gives group 1.  The classes \<^verbatim>\<open>[\d,]\<close> and \<^verbatim>\<open>\s\<close>
  are disjoint and \<^verbatim>\<open>d\<close> is not a space, so backtracking into a shorter run of either
  cannot succeed: the match takes the longest run of each.  \<open>DECKS_RE_search\<close> is
  \<^verbatim>\<open>DECKS_RE.search\<close>: the match at the leftmost position that has one.
\<close>

definition DECKS_RE_match :: "string \<Rightarrow> string option" where
  "DECKS_RE_match s =
     (case s of
        [] \<Rightarrow> None
      | c # cs \<Rightarrow>
          if \<not> is_digit c then None
          else
            (let grp = c # takeWhile (\<lambda>d. is_digit d \<or> d = CHR '','') cs;
                 rest = dropWhile (\<lambda>d. is_digit d \<or> d = CHR '','') cs;
                 spaces = takeWhile is_space rest;
                 word = take 5 (dropWhile is_space rest)
             in if spaces \<noteq> [] \<and> lower word = ''decks'' then Some grp else None))"

fun DECKS_RE_search :: "string \<Rightarrow> string option" where
  "DECKS_RE_search [] = None"
| "DECKS_RE_search (c # cs) =
     (case DECKS_RE_match (c # cs) of
        Some grp \<Rightarrow> Some grp
      | None \<Rightarrow> DECKS_RE_search cs)"

text \<open>
  \<^verbatim>\<open>int(s)\<close> on a string of decimal digits.  Since Python 3.11 (which the import of
  \<^verbatim>\<open>datetime.UTC\<close> requires) it raises \<^verbatim>\<open>ValueError\<close> for more than 4300 digits.
\<close>

definition digit_val :: "char \<Rightarrow> int" where
  "digit_val c = of_char c - 48"

definition int_of_digits :: "string \<Rightarrow> exn + int" where
  "int_of_digits ds =
     (if 4300 < length ds
      then Inl (ValueError
             (''Exceeds the limit (4300 digits) for integer string conversion: value has ''
                @ show_nat (length ds)
                @ '' digits; use sys.set_int_max_str_digits() to increase the limit''))
      else Inr (foldl (\<lambda>n c. 10 * n + digit_val c) 0 ds))"

definition extract_deck_count :: "string \<Rightarrow> exn + int option" where
  "extract_deck_count html =
     (case DECKS_RE_search html of
        None \<Rightarrow> Inr None
      | Some grp \<Rightarrow>
          (case int_of_digits (filter (\<lambda>c. c \<noteq> CHR '','') grp) of
             Inl e \<Rightarrow> Inl e
           | Inr n \<Rightarrow> Inr (Some n)))"

text \<open>
  \<^verbatim>\<open>fetch_deck_count\<close>.  The parameter \<open>http_get\<close> is the request of line 258 with the
  two reads that follow it: for an address, either the exception raised or the pair
  of \<^verbatim>\<open>str(r.url)\<close> and \<^verbatim>\<open>await r.text()\<close>.  \<open>fetch_body\<close> is the \<^verbatim>\<open>try\<close> block, and
  \<open>fetch_deck_count\<close> adds the \<^verbatim>\<open>except Exception\<close> handler.  The semaphore and the pacing
  delay of the \<^verbatim>\<open>finally\<close> block order the fetches in time and do not change a result.
\<close>

definition fetch_body ::
  "(string \<Rightarrow> exn + string \<times> string) \<Rightarrow> Commander \<Rightarrow> exn + Result" where
  "fetch_body http_get cmdr =
     (case http_get (edhrec_route_url cmdr) of
        Inl e \<Rightarrow> Inl e
      | Inr (final_url, html) \<Rightarrow>
          (case extract_deck_count html of
             Inl e \<Rightarrow> Inl e
           | Inr d \<Rightarrow>
               Inr \<lparr>Result.name = Commander.name cmdr, edhrec_url = final_url,
                    decks = d, error = None\<rparr>))"

definition fetch_deck_count ::
  "(string \<Rightarrow> exn + string \<times> string) \<Rightarrow> Commander \<Rightarrow> exn + Result" where
  "fetch_deck_count http_get cmdr =
     (case fetch_body http_get cmdr of
        Inr res \<Rightarrow> Inr res
      | Inl e \<Rightarrow>
          Inr \<lparr>Result.name = Commander.name cmdr, edhrec_url = edhrec_route_url cmdr,
               decks = None, error = Some (str_exn e)\<rparr>)"

section \<open>\<^verbatim>\<open>main_async\<close>\<close>

text \<open>The keyword arguments that \<^verbatim>\<open>main_async\<close> passes to \<^verbatim>\<open>apply_filters_async\<close>.\<close>

definition main_filters :: "args \<Rightarrow> filters" where
  "main_filters a =
     \<lparr>exclude_funny = \<not> include_funny_sets a,
      exclude_partner = \<not> include_partners a,
      exclude_background = \<not> include_backgrounds a,
      exclude_companion = \<not> include_companions a,
      exclude_doctors_companion = \<not> include_doctors_companions a,
      exclude_vanilla = \<not> include_vanilla a,
      exclude_recent = \<not> include_recent a,
      recent_days = args.recent_days a,
      exclude_ptk = \<not> include_ptk a,
      ptk_strict = args.ptk_strict a,
      exclude_doctors = \<not> include_doctors a,
      concurrency = max 2 (args.concurrency a div 2)\<rparr>"

text \<open>Line 302: the semaphore of the metric fetches.\<close>

definition main_sem :: "args \<Rightarrow> exn + int" where
  "main_sem a = Semaphore (args.concurrency a)"

subsection \<open>The bottom-K selector\<close>

text \<open>
  The heap holds the tuples \<^verbatim>\<open>(-val, seq, res)\<close>.  Python compares tuples
  lexicographically: first \<^verbatim>\<open>-val\<close>, then \<^verbatim>\<open>seq\<close>.  The third component would only be
  compared between two tuples that agree on both, which never happens because \<^verbatim>\<open>seq\<close>
  grows with every push (\<open>run_selector_inv\<close> below).
\<close>

type_synonym heap_item = "int \<times> nat \<times> Result"

definition item_lt :: "heap_item \<Rightarrow> heap_item \<Rightarrow> bool" where
  "item_lt a b = (fst a < fst b \<or> (fst a = fst b \<and> fst (snd a) < fst (snd b)))"

text \<open>
  \<^verbatim>\<open>heapq\<close> is the standard library's binary min-heap on a list.  Its contract is on the
  content of the list: \<^verbatim>\<open>heappush\<close> adds the item, \<^verbatim>\<open>heappop\<close> removes and returns the
  smallest item and raises \<^verbatim>\<open>IndexError\<close> on an empty list.  The model keeps the content
  in push order and does not reproduce the array layout of the binary heap.
\<close>

definition heappush :: "heap_item list \<Rightarrow> heap_item \<Rightarrow> heap_item list" where
  "heappush h x = h @ [x]"

fun least_item :: "heap_item \<Rightarrow> heap_item list \<Rightarrow> heap_item" where
  "least_item m [] = m"
| "least_item m (x # xs) = least_item (if item_lt x m then x else m) xs"

definition heappop :: "heap_item list \<Rightarrow> exn + (heap_item \<times> heap_item list)" where
  "heappop h =
     (case h of
        [] \<Rightarrow> Inl (IndexError ''index out of range'')
      | x # xs \<Rightarrow> (let m = least_item x xs in Inr (m, remove1 m h)))"

record selector =
  heap :: "heap_item list"
  seq :: nat
  processed :: nat

definition big :: int where
  "big = 10 ^ 12"

text \<open>Line 314: the value \<^verbatim>\<open>val\<close> a result is ranked by.\<close>

definition rank_key :: "args \<Rightarrow> Result \<Rightarrow> int" where
  "rank_key a res =
     (case decks res of
        Some d \<Rightarrow> d
      | None \<Rightarrow> (if \<not> include_errors a then big else 0))"

text \<open>Line 317: the test that makes the loop skip a result.\<close>

definition skipped :: "args \<Rightarrow> Result \<Rightarrow> bool" where
  "skipped a res =
     (only_positive a \<and> (case decks res of Some d \<Rightarrow> d \<le> 0 | None \<Rightarrow> False))"

text \<open>One iteration of the loop over \<^verbatim>\<open>asyncio.as_completed(tasks)\<close> (lines 313 to 326).\<close>

definition selector_step :: "args \<Rightarrow> selector \<Rightarrow> Result \<Rightarrow> exn + selector" where
  "selector_step a st res =
     (let val = rank_key a res in
      if skipped a res then Inr (st\<lparr>processed := processed st + 1\<rparr>)
      else
        (let h1 = heappush (heap st) (- val, seq st, res);
             s1 = seq st + 1
         in if int (length h1) > bottom_k a
            then (case heappop h1 of
                    Inl e \<Rightarrow> Inl e
                  | Inr (_, h2) \<Rightarrow>
                      Inr \<lparr>heap = h2, seq = s1, processed = processed st + 1\<rparr>)
            else Inr \<lparr>heap = h1, seq = s1, processed = processed st + 1\<rparr>))"

text \<open>
  The whole loop, on the results in the order in which the fetches complete.
\<close>

fun run_selector :: "args \<Rightarrow> selector \<Rightarrow> Result list \<Rightarrow> exn + selector" where
  "run_selector a st [] = Inr st"
| "run_selector a st (r # rs) =
     (case selector_step a st r of
        Inl e \<Rightarrow> Inl e
      | Inr st' \<Rightarrow> run_selector a st' rs)"

definition init_selector :: selector where
  "init_selector = \<lparr>heap = [], seq = 0, processed = 0\<rparr>"

text \<open>Line 330: \<^verbatim>\<open>bottom = [t[2] for t in heap]\<close>, before it is sorted for display.\<close>

definition bottom :: "selector \<Rightarrow> Result list" where
  "bottom st = map (\<lambda>t. snd (snd t)) (heap st)"

text \<open>
  Lines 305 to 330 as one function: the results retained at the end of the stream.
\<close>

definition select_bottom :: "args \<Rightarrow> Result list \<Rightarrow> exn + Result list" where
  "select_bottom a rs =
     (case run_selector a init_selector rs of
        Inl e \<Rightarrow> Inl e
      | Inr st \<Rightarrow> Inr (bottom st))"

text \<open>The results of a stream that the loop pushes on the heap, in stream order.\<close>

definition admitted :: "args \<Rightarrow> Result list \<Rightarrow> Result list" where
  "admitted a rs = filter (\<lambda>r. \<not> skipped a r) rs"

text \<open>
  The invariant of the loop after the results \<open>rs\<close>: every heap entry carries the
  negated rank key of its result and a sequence number below the counter, the sequence
  numbers are distinct, the rank keys in the heap are the \<^verbatim>\<open>bottom_k\<close> smallest of the
  admitted results, and the retained results are admitted results.
\<close>

definition sel_inv :: "args \<Rightarrow> Result list \<Rightarrow> selector \<Rightarrow> bool" where
  "sel_inv a rs st \<longleftrightarrow>
     (\<forall>t \<in> set (heap st). fst t = - rank_key a (snd (snd t)) \<and> fst (snd t) < seq st) \<and>
     distinct (map (\<lambda>t. fst (snd t)) (heap st)) \<and>
     sort (map (rank_key a) (bottom st))
       = take (nat (bottom_k a)) (sort (map (rank_key a) (admitted a rs))) \<and>
     mset (bottom st) \<subseteq># mset (admitted a rs) \<and>
     seq st = length (admitted a rs) \<and>
     processed st = length rs"

section \<open>Properties of the heap operations\<close>

lemma least_item_mem: "least_item m xs \<in> set (m # xs)"
  by (induction xs arbitrary: m) auto

lemma least_item_le_start: "fst (least_item m xs) \<le> fst m"
proof (induction xs arbitrary: m)
  case Nil
  show ?case by simp
next
  case (Cons x xs)
  have "fst (least_item (if item_lt x m then x else m) xs)
          \<le> fst (if item_lt x m then x else m)"
    by (rule Cons.IH)
  also have "\<dots> \<le> fst m"
    by (auto simp: item_lt_def)
  finally show ?case by simp
qed

lemma least_item_le: "y \<in> set (m # xs) \<Longrightarrow> fst (least_item m xs) \<le> fst y"
proof (induction xs arbitrary: m)
  case Nil
  then show ?case by simp
next
  case (Cons x xs)
  let ?m' = "if item_lt x m then x else m"
  have step: "fst ?m' \<le> fst x" "fst ?m' \<le> fst m"
    by (auto simp: item_lt_def)
  from Cons.prems consider "y = m" | "y = x" | "y \<in> set xs" by auto
  then show ?case
  proof cases
    case 1
    with least_item_le_start [of ?m' xs] step show ?thesis by simp
  next
    case 2
    with least_item_le_start [of ?m' xs] step show ?thesis by simp
  next
    case 3
    then have "y \<in> set (?m' # xs)" by simp
    from Cons.IH [OF this] show ?thesis by simp
  qed
qed

lemma heappop_nonempty:
  assumes "h \<noteq> []"
  obtains m where "heappop h = Inr (m, remove1 m h)" "m \<in> set h"
    "\<forall>y \<in> set h. fst m \<le> fst y"
proof -
  from assms obtain x xs where h: "h = x # xs" by (cases h) auto
  let ?m = "least_item x xs"
  have "heappop h = Inr (?m, remove1 ?m h)"
    by (simp add: heappop_def h Let_def)
  moreover have "?m \<in> set h"
    using least_item_mem [of x xs] by (simp add: h)
  moreover have "\<forall>y \<in> set h. fst ?m \<le> fst y"
    using least_item_le [of _ x xs] by (simp add: h)
  ultimately show thesis by (rule that)
qed

section \<open>Sorted lists\<close>

lemma take_insort_take: "take k (insort v (take k xs)) = take k (insort (v::int) xs)"
proof (induction xs arbitrary: k)
  case Nil
  then show ?case by simp
next
  case (Cons x xs)
  show ?case
  proof (cases k)
    case 0
    then show ?thesis by simp
  next
    case (Suc j)
    show ?thesis
    proof (cases "v \<le> x")
      case True
      then show ?thesis using Suc by (cases j) (simp_all add: min_def)
    next
      case False
      then show ?thesis using Suc Cons.IH [of j] by simp
    qed
  qed
qed

lemma sort_mset_cong: "mset xs = mset ys \<Longrightarrow> sort xs = sort (ys :: int list)"
  by (metis sorted_list_of_multiset_mset)

lemma sort_snoc: "sort (xs @ [v]) = insort v (sort (xs :: int list))"
  by (rule properties_for_sort) (simp_all add: sorted_insort)

lemma sorted_last_max:
  assumes "sorted (ys :: int list)" "x \<in> set ys" "\<forall>y \<in> set ys. y \<le> x"
  shows "last ys = x"
proof -
  from assms(2) have ne: "ys \<noteq> []" by auto
  then have split: "ys = butlast ys @ [last ys]" by simp
  from ne have "last ys \<in> set ys" by simp
  with assms(3) have "last ys \<le> x" by blast
  moreover have "x \<le> last ys"
  proof -
    from assms(1) split have "sorted (butlast ys @ [last ys])" by simp
    then have "\<forall>b \<in> set (butlast ys). b \<le> last ys"
      by (simp add: sorted_append)
    moreover from assms(2) split have "x \<in> set (butlast ys) \<or> x = last ys"
      by (metis Un_iff empty_iff empty_set set_ConsD set_append)
    ultimately show ?thesis by auto
  qed
  ultimately show ?thesis by simp
qed

lemma sort_remove1_max:
  assumes "x \<in> set xs" "\<forall>y \<in> set xs. y \<le> (x :: int)"
  shows "sort (remove1 x xs) = butlast (sort xs)"
proof (rule properties_for_sort)
  let ?s = "sort xs"
  from assms(1) have "xs \<noteq> []" by auto
  then have ne: "?s \<noteq> []"
    by (metis length_0_conv length_sort)
  have "last ?s = x"
    by (rule sorted_last_max) (use assms in simp_all)
  with ne have "butlast ?s @ [x] = ?s"
    by (metis append_butlast_last_id)
  then have "mset (butlast ?s @ [x]) = mset ?s"
    by simp
  then have "add_mset x (mset (butlast ?s)) = mset xs"
    by simp
  then show "mset (butlast ?s) = mset (remove1 x xs)"
    by (metis add_mset_remove_trivial mset_remove1)
  show "sorted (butlast ?s)"
    by (simp add: sorted_butlast)
qed

section \<open>The invariant of the selector loop\<close>

lemma distinct_map_remove1:
  "distinct (map f xs) \<Longrightarrow> distinct (map f (remove1 x xs))"
proof (induction xs)
  case Nil
  then show ?case by simp
next
  case (Cons y ys)
  have "set (remove1 x ys) \<subseteq> set ys" by (rule set_remove1_subset)
  with Cons show ?case by auto
qed

lemma sel_inv_init: "sel_inv a [] init_selector"
  by (simp add: sel_inv_def init_selector_def bottom_def admitted_def)

lemma sel_inv_skip:
  assumes "sel_inv a rs st" "skipped a r"
  shows "selector_step a st r = Inr (st\<lparr>processed := processed st + 1\<rparr>)"
    and "sel_inv a (rs @ [r]) (st\<lparr>processed := processed st + 1\<rparr>)"
  using assms by (auto simp: selector_step_def sel_inv_def bottom_def admitted_def)

lemma sel_inv_admit:
  assumes inv: "sel_inv a rs st" and adm: "\<not> skipped a r"
  shows "\<exists>st'. selector_step a st r = Inr st' \<and> sel_inv a (rs @ [r]) st'"
proof -
  define v where "v = rank_key a r"
  define x :: heap_item where "x = (- v, seq st, r)"
  define h1 where "h1 = heap st @ [x]"
  define K where "K = nat (bottom_k a)"
  define key where "key = (\<lambda>t :: heap_item. rank_key a (snd (snd t)))"
  define L where "L = sort (map (rank_key a) (bottom st))"
  define A where "A = sort (map (rank_key a) (admitted a rs))"
  have adm_snoc: "admitted a (rs @ [r]) = admitted a rs @ [r]"
    using adm by (simp add: admitted_def)
  have L: "L = take K A"
    using inv by (simp add: sel_inv_def L_def A_def K_def)
  have lenL: "length L = length (heap st)"
    by (simp add: L_def bottom_def)
  have len_le: "length (heap st) \<le> K"
    using L lenL by (metis length_take min.cobounded2)
  have h1_inv: "\<forall>t \<in> set h1. fst t = - rank_key a (snd (snd t)) \<and> fst (snd t) < seq st + 1"
    using inv by (auto simp: sel_inv_def h1_def x_def v_def)
  have h1_dist: "distinct (map (\<lambda>t. fst (snd t)) h1)"
    using inv by (auto simp: sel_inv_def h1_def x_def)
  have keys_h1: "sort (map key h1) = insort v L"
    by (simp add: h1_def key_def x_def v_def L_def bottom_def sort_snoc comp_def)
  have target: "take K (sort (map (rank_key a) (admitted a (rs @ [r])))) = take K (insort v L)"
    by (simp add: adm_snoc sort_snoc L take_insort_take A_def v_def)
  have sub_h1: "mset (map (\<lambda>t. snd (snd t)) h1) \<subseteq># mset (admitted a (rs @ [r]))"
    using inv by (simp add: sel_inv_def h1_def x_def adm_snoc bottom_def)
  have step: "selector_step a st r =
      (if int (length h1) > bottom_k a
       then (case heappop h1 of
               Inl e \<Rightarrow> Inl e
             | Inr (_, h2) \<Rightarrow> Inr \<lparr>heap = h2, seq = seq st + 1, processed = processed st + 1\<rparr>)
       else Inr \<lparr>heap = h1, seq = seq st + 1, processed = processed st + 1\<rparr>)"
    using adm by (auto simp: selector_step_def Let_def h1_def x_def v_def heappush_def
        split: sum.splits)
  have seq': "seq st + 1 = length (admitted a (rs @ [r]))"
    using inv by (simp add: sel_inv_def adm_snoc)
  have proc': "processed st + 1 = length (rs @ [r])"
    using inv by (simp add: sel_inv_def)
  show ?thesis
  proof (cases "int (length h1) > bottom_k a")
    case False
    then have "length h1 \<le> K" by (simp add: K_def)
    then have "take K (insort v L) = insort v L"
      by (simp add: lenL h1_def)
    with target keys_h1
    have "sort (map key h1) = take K (sort (map (rank_key a) (admitted a (rs @ [r]))))"
      by simp
    then have "sel_inv a (rs @ [r]) \<lparr>heap = h1, seq = seq st + 1, processed = processed st + 1\<rparr>"
      using h1_inv h1_dist sub_h1 seq' proc'
      by (simp add: sel_inv_def bottom_def key_def K_def comp_def)
    with step False show ?thesis by simp
  next
    case True
    have "h1 \<noteq> []" by (simp add: h1_def)
    then obtain m where pop: "heappop h1 = Inr (m, remove1 m h1)"
      and m_in: "m \<in> set h1" and m_least: "\<forall>y \<in> set h1. fst m \<le> fst y"
      by (rule heappop_nonempty)
    let ?h2 = "remove1 m h1"
    let ?st' = "\<lparr>heap = ?h2, seq = seq st + 1, processed = processed st + 1\<rparr>"
    from step True pop have res: "selector_step a st r = Inr ?st'" by simp
    have sub_set: "set ?h2 \<subseteq> set h1" by (rule set_remove1_subset)
    have key_m: "key m \<in> set (map key h1)" using m_in by simp
    have key_max: "\<forall>y \<in> set (map key h1). y \<le> key m"
    proof
      fix y assume "y \<in> set (map key h1)"
      then obtain t where t: "t \<in> set h1" "y = key t" by auto
      from t(1) m_least have "fst m \<le> fst t" by blast
      moreover from h1_inv t(1) have "fst t = - key t" by (simp add: key_def)
      moreover from h1_inv m_in have "fst m = - key m" by (simp add: key_def)
      ultimately show "y \<le> key m" using t(2) by simp
    qed
    have "mset (map key ?h2) = image_mset key (mset h1 - {#m#})"
      by simp
    also have "\<dots> = image_mset key (mset h1) - image_mset key {#m#}"
      using m_in by (intro image_mset_Diff) simp
    also have "\<dots> = mset (remove1 (key m) (map key h1))"
      by simp
    finally have "sort (map key ?h2) = sort (remove1 (key m) (map key h1))"
      by (rule sort_mset_cong)
    also have "\<dots> = butlast (sort (map key h1))"
      using key_m key_max by (rule sort_remove1_max)
    also have "\<dots> = butlast (insort v L)"
      by (simp add: keys_h1)
    also have "\<dots> = take K (insort v L)"
    proof -
      have "0 < length h1" by (simp add: h1_def)
      with True have "K < length h1"
        unfolding K_def by (cases "0 \<le> bottom_k a") (simp_all add: nat_less_iff)
      with len_le have "length (heap st) = K" by (simp add: h1_def)
      then show ?thesis by (simp add: butlast_conv_take lenL)
    qed
    finally have keys: "sort (map key ?h2)
        = take K (sort (map (rank_key a) (admitted a (rs @ [r]))))"
      using target by simp
    have "mset (map (\<lambda>t. snd (snd t)) ?h2) \<subseteq># mset (map (\<lambda>t. snd (snd t)) h1)"
      by (simp add: image_mset_subseteq_mono)
    then have sub: "mset (map (\<lambda>t. snd (snd t)) ?h2) \<subseteq># mset (admitted a (rs @ [r]))"
      using sub_h1 by (rule subset_mset.order_trans)
    have dist: "distinct (map (\<lambda>t. fst (snd t)) ?h2)"
      using h1_dist by (rule distinct_map_remove1)
    have "sel_inv a (rs @ [r]) ?st'"
      using h1_inv sub_set keys sub dist seq' proc'
      by (auto simp: sel_inv_def bottom_def key_def K_def comp_def)
    with res show ?thesis by blast
  qed
qed

lemma sel_inv_step:
  assumes "sel_inv a rs st"
  shows "\<exists>st'. selector_step a st r = Inr st' \<and> sel_inv a (rs @ [r]) st'"
proof (cases "skipped a r")
  case True
  with assms sel_inv_skip [of a rs st r] show ?thesis by blast
next
  case False
  with assms show ?thesis by (rule sel_inv_admit)
qed

lemma run_selector_append:
  "run_selector a st (xs @ ys) =
     (case run_selector a st xs of Inl e \<Rightarrow> Inl e | Inr st' \<Rightarrow> run_selector a st' ys)"
  by (induction xs arbitrary: st) (auto split: sum.splits)

lemma run_selector_inv:
  "\<exists>st. run_selector a init_selector rs = Inr st \<and> sel_inv a rs st"
proof (induction rs rule: rev_induct)
  case Nil
  show ?case by (simp add: sel_inv_init)
next
  case (snoc r rs)
  then obtain st where st: "run_selector a init_selector rs = Inr st" "sel_inv a rs st"
    by blast
  from sel_inv_step [OF st(2), of r] obtain st' where
    st': "selector_step a st r = Inr st'" "sel_inv a (rs @ [r]) st'" by blast
  have "run_selector a init_selector (rs @ [r]) = Inr st'"
    by (simp add: run_selector_append st(1) st'(1))
  with st'(2) show ?case by blast
qed

section \<open>The selector: size, content and admission\<close>

lemma sel_inv_length:
  assumes "sel_inv a rs st"
  shows "length (heap st) = min (nat (bottom_k a)) (length (admitted a rs))"
proof -
  have "length (heap st) = length (sort (map (rank_key a) (bottom st)))"
    by (simp add: bottom_def)
  also have "\<dots> = length (take (nat (bottom_k a)) (sort (map (rank_key a) (admitted a rs))))"
    using assms by (simp add: sel_inv_def)
  also have "\<dots> = min (nat (bottom_k a)) (length (admitted a rs))"
    by (simp add: min.commute)
  finally show ?thesis .
qed

lemma map_sort_key: "map f (sort_key f xs) = sort (map f (xs :: 'a list) :: int list)"
  by (rule sym, rule properties_for_sort) simp_all

lemma mset_take_subseteq: "mset (take n xs) \<subseteq># mset xs"
proof -
  have "mset xs = mset (take n xs) + mset (drop n xs)"
    by (metis append_take_drop_id mset_append)
  then show ?thesis by simp
qed

lemma admitted_mset_cong: "mset rs' = mset rs \<Longrightarrow> mset (admitted a rs') = mset (admitted a rs)"
  by (simp add: admitted_def)

text \<open>
  C1.  For a non-negative \<^verbatim>\<open>bottom_k\<close>, the heap holds at most \<^verbatim>\<open>bottom_k\<close> entries after
  every prefix of the stream, and at the end of the stream it holds the minimum of
  \<^verbatim>\<open>bottom_k\<close> and the number of admitted results.  The loop never raises.
\<close>

theorem heap_size_bounded:
  assumes "0 \<le> bottom_k a"
  shows "(\<forall>n. \<exists>st. run_selector a init_selector (take n rs) = Inr st
              \<and> int (length (heap st)) \<le> bottom_k a)
       \<and> (\<exists>st. run_selector a init_selector rs = Inr st
              \<and> int (length (heap st)) = min (bottom_k a) (int (length (admitted a rs))))"
proof (intro conjI allI)
  fix n
  obtain st where st: "run_selector a init_selector (take n rs) = Inr st"
      "sel_inv a (take n rs) st"
    using run_selector_inv by blast
  from sel_inv_length [OF st(2)] have "length (heap st) \<le> nat (bottom_k a)" by simp
  with assms have "int (length (heap st)) \<le> bottom_k a" by linarith
  with st(1) show "\<exists>st. run_selector a init_selector (take n rs) = Inr st
      \<and> int (length (heap st)) \<le> bottom_k a" by blast
next
  obtain st where st: "run_selector a init_selector rs = Inr st" "sel_inv a rs st"
    using run_selector_inv by blast
  from sel_inv_length [OF st(2)] assms
  have "int (length (heap st)) = min (bottom_k a) (int (length (admitted a rs)))"
    by linarith
  with st(1) show "\<exists>st. run_selector a init_selector rs = Inr st
      \<and> int (length (heap st)) = min (bottom_k a) (int (length (admitted a rs)))" by blast
qed

theorem heap_size_bounded_witness:
  "0 \<le> bottom_k (default_args\<lparr>bottom_k := 2\<rparr>)
   \<and> (\<forall>n. \<exists>st. run_selector (default_args\<lparr>bottom_k := 2\<rparr>) init_selector
          (take n [\<lparr>Result.name = ''A'', edhrec_url = ''a'', decks = Some 50, error = None\<rparr>,
                   \<lparr>Result.name = ''B'', edhrec_url = ''b'', decks = None, error = Some ''timeout''\<rparr>,
                   \<lparr>Result.name = ''C'', edhrec_url = ''c'', decks = Some 10, error = None\<rparr>]) = Inr st
        \<and> int (length (heap st)) \<le> 2)
   \<and> (\<exists>st. run_selector (default_args\<lparr>bottom_k := 2\<rparr>) init_selector
          [\<lparr>Result.name = ''A'', edhrec_url = ''a'', decks = Some 50, error = None\<rparr>,
           \<lparr>Result.name = ''B'', edhrec_url = ''b'', decks = None, error = Some ''timeout''\<rparr>,
           \<lparr>Result.name = ''C'', edhrec_url = ''c'', decks = Some 10, error = None\<rparr>] = Inr st
        \<and> int (length (heap st)) = 2)"
  using heap_size_bounded [of "default_args\<lparr>bottom_k := 2\<rparr>"
      "[\<lparr>Result.name = ''A'', edhrec_url = ''a'', decks = Some 50, error = None\<rparr>,
        \<lparr>Result.name = ''B'', edhrec_url = ''b'', decks = None, error = Some ''timeout''\<rparr>,
        \<lparr>Result.name = ''C'', edhrec_url = ''c'', decks = Some 10, error = None\<rparr>]"]
  by (simp add: default_args_def admitted_def skipped_def)

text \<open>
  C2, as the code has it.  For every admission order \<open>rs'\<close> of the results \<open>rs\<close>, the
  loop ends, the sorted rank keys of the retained results are the first \<^verbatim>\<open>bottom_k\<close> of
  the sorted rank keys of all admitted results, and the retained results are admitted
  results.  When the admitted results have pairwise distinct rank keys, the retained
  results are exactly the first \<^verbatim>\<open>bottom_k\<close> of the admitted results sorted by rank key.
\<close>

theorem bottom_k_rank_keys:
  assumes perm: "mset rs' = mset rs"
  shows "\<exists>st. run_selector a init_selector rs' = Inr st
     \<and> sort (map (rank_key a) (bottom st))
         = take (nat (bottom_k a)) (sort (map (rank_key a) (admitted a rs)))
     \<and> mset (bottom st) \<subseteq># mset (admitted a rs)
     \<and> (distinct (map (rank_key a) (admitted a rs)) \<longrightarrow>
          mset (bottom st)
            = mset (take (nat (bottom_k a)) (sort_key (rank_key a) (admitted a rs))))"
proof -
  let ?f = "rank_key a" and ?K = "nat (bottom_k a)"
  let ?S = "admitted a rs" and ?S' = "admitted a rs'"
  obtain st where st: "run_selector a init_selector rs' = Inr st" "sel_inv a rs' st"
    using run_selector_inv by blast
  have S: "mset ?S' = mset ?S" using perm by (rule admitted_mset_cong)
  then have "mset (map ?f ?S') = mset (map ?f ?S)" by simp
  then have sortS: "sort (map ?f ?S') = sort (map ?f ?S)" by (rule sort_mset_cong)
  from st(2) have keys: "sort (map ?f (bottom st)) = take ?K (sort (map ?f ?S))"
    by (simp add: sel_inv_def sortS)
  from st(2) S have sub: "mset (bottom st) \<subseteq># mset ?S"
    by (simp add: sel_inv_def)
  have exact: "mset (bottom st) = mset (take ?K (sort_key ?f ?S))"
    if dist: "distinct (map ?f ?S)"
  proof -
    let ?T = "take ?K (sort_key ?f ?S)"
    from dist have inj: "inj_on ?f (set ?S)" by (simp add: distinct_map)
    have "mset ?T \<subseteq># mset (sort_key ?f ?S)" by (rule mset_take_subseteq)
    then have subT: "mset ?T \<subseteq># mset ?S" by simp
    have "image_mset ?f (mset (bottom st)) = mset (sort (map ?f (bottom st)))"
      by simp
    also have "\<dots> = mset (take ?K (map ?f (sort_key ?f ?S)))"
      by (simp only: keys map_sort_key)
    also have "\<dots> = image_mset ?f (mset ?T)"
      by (simp add: take_map)
    finally have img: "image_mset ?f (mset (bottom st)) = image_mset ?f (mset ?T)" .
    show ?thesis
    proof (rule multiset.inj_map_strong [OF _ img])
      fix z za
      assume "z \<in># mset (bottom st)" "za \<in># mset ?T" "?f z = ?f za"
      moreover from \<open>z \<in># mset (bottom st)\<close> sub have "z \<in> set ?S"
        by (metis mset_subset_eqD set_mset_mset)
      moreover from \<open>za \<in># mset ?T\<close> subT have "za \<in> set ?S"
        by (metis mset_subset_eqD set_mset_mset)
      ultimately show "z = za" using inj by (auto dest: inj_onD)
    qed
  qed
  from st(1) keys sub exact show ?thesis by blast
qed

theorem bottom_k_rank_keys_witness:
  "mset [\<lparr>Result.name = ''C'', edhrec_url = ''c'', decks = Some 10, error = None\<rparr>,
         \<lparr>Result.name = ''A'', edhrec_url = ''a'', decks = Some 50, error = None\<rparr>,
         \<lparr>Result.name = ''B'', edhrec_url = ''b'', decks = Some 5, error = None\<rparr>]
     = mset [\<lparr>Result.name = ''A'', edhrec_url = ''a'', decks = Some 50, error = None\<rparr>,
             \<lparr>Result.name = ''B'', edhrec_url = ''b'', decks = Some 5, error = None\<rparr>,
             \<lparr>Result.name = ''C'', edhrec_url = ''c'', decks = Some 10, error = None\<rparr>]
   \<and> (\<exists>st. run_selector (default_args\<lparr>bottom_k := 2\<rparr>) init_selector
          [\<lparr>Result.name = ''C'', edhrec_url = ''c'', decks = Some 10, error = None\<rparr>,
           \<lparr>Result.name = ''A'', edhrec_url = ''a'', decks = Some 50, error = None\<rparr>,
           \<lparr>Result.name = ''B'', edhrec_url = ''b'', decks = Some 5, error = None\<rparr>] = Inr st
        \<and> sort (map (rank_key (default_args\<lparr>bottom_k := 2\<rparr>)) (bottom st)) = [5, 10]
        \<and> mset (bottom st)
            = mset [\<lparr>Result.name = ''B'', edhrec_url = ''b'', decks = Some 5, error = None\<rparr>,
                    \<lparr>Result.name = ''C'', edhrec_url = ''c'', decks = Some 10, error = None\<rparr>])"
proof -
  let ?a = "default_args\<lparr>bottom_k := 2\<rparr>"
  let ?A = "\<lparr>Result.name = ''A'', edhrec_url = ''a'', decks = Some 50, error = None\<rparr>"
  let ?B = "\<lparr>Result.name = ''B'', edhrec_url = ''b'', decks = Some 5, error = None\<rparr>"
  let ?C = "\<lparr>Result.name = ''C'', edhrec_url = ''c'', decks = Some 10, error = None\<rparr>"
  have perm: "mset [?C, ?A, ?B] = mset [?A, ?B, ?C]" by simp
  have adm: "admitted ?a [?A, ?B, ?C] = [?A, ?B, ?C]"
    by (simp add: admitted_def skipped_def default_args_def)
  have keys: "map (rank_key ?a) [?A, ?B, ?C] = [50, 5, 10]"
    by (simp add: rank_key_def)
  from bottom_k_rank_keys [OF perm, of ?a] obtain st where
    st: "run_selector ?a init_selector [?C, ?A, ?B] = Inr st"
    and k: "sort (map (rank_key ?a) (bottom st))
         = take (nat (bottom_k ?a)) (sort (map (rank_key ?a) (admitted ?a [?A, ?B, ?C])))"
    and d: "distinct (map (rank_key ?a) (admitted ?a [?A, ?B, ?C])) \<longrightarrow>
          mset (bottom st)
            = mset (take (nat (bottom_k ?a)) (sort_key (rank_key ?a) (admitted ?a [?A, ?B, ?C])))"
    by blast
  have K: "nat (bottom_k ?a) = 2" by (simp add: default_args_def)
  from k have k': "sort (map (rank_key ?a) (bottom st)) = [5, 10]"
    by (simp only: adm keys K) simp
  have "sort_key (rank_key ?a) [?A, ?B, ?C] = [?B, ?C, ?A]"
    by (simp add: rank_key_def)
  with d have d': "mset (bottom st) = mset [?B, ?C]"
    by (simp only: adm keys K) simp
  from perm st k' d' show ?thesis by blast
qed

text \<open>
  Results with equal rank keys: with \<^verbatim>\<open>bottom_k = 1\<close> the two admission orders of the same
  two results retain different results, and the stream \<open>[A, B]\<close> does not retain the first
  result of its own ascending sort.  \<^verbatim>\<open>heappop\<close> removes the tuple with the smaller
  sequence number, so of two results with equal keys the later arrival stays.
\<close>

theorem retained_set_depends_on_order:
  "select_bottom (default_args\<lparr>bottom_k := 1\<rparr>)
     [\<lparr>Result.name = ''A'', edhrec_url = ''a'', decks = Some 5, error = None\<rparr>,
      \<lparr>Result.name = ''B'', edhrec_url = ''b'', decks = Some 5, error = None\<rparr>]
     = Inr [\<lparr>Result.name = ''B'', edhrec_url = ''b'', decks = Some 5, error = None\<rparr>]
   \<and> select_bottom (default_args\<lparr>bottom_k := 1\<rparr>)
     [\<lparr>Result.name = ''B'', edhrec_url = ''b'', decks = Some 5, error = None\<rparr>,
      \<lparr>Result.name = ''A'', edhrec_url = ''a'', decks = Some 5, error = None\<rparr>]
     = Inr [\<lparr>Result.name = ''A'', edhrec_url = ''a'', decks = Some 5, error = None\<rparr>]
   \<and> take 1 (sort_key (rank_key (default_args\<lparr>bottom_k := 1\<rparr>))
        [\<lparr>Result.name = ''A'', edhrec_url = ''a'', decks = Some 5, error = None\<rparr>,
         \<lparr>Result.name = ''B'', edhrec_url = ''b'', decks = Some 5, error = None\<rparr>])
     = [\<lparr>Result.name = ''A'', edhrec_url = ''a'', decks = Some 5, error = None\<rparr>]"
  by (simp add: select_bottom_def selector_step_def heappush_def heappop_def item_lt_def
      rank_key_def skipped_def init_selector_def default_args_def bottom_def)

text \<open>
  C5.  With \<^verbatim>\<open>only_positive\<close> set, a result whose metric is a number \<open>d \<le> 0\<close> leaves the heap
  and the sequence counter untouched; a result without a metric is not skipped and is
  handled as it is without the switch; and after every prefix of the stream no heap
  entry has a metric that is a non-positive number.
\<close>

theorem only_positive_skips:
  assumes "only_positive a"
  shows "(decks r = Some d \<and> d \<le> 0 \<longrightarrow>
            selector_step a st r = Inr (st\<lparr>processed := processed st + 1\<rparr>))
       \<and> (decks r = None \<longrightarrow>
            \<not> skipped a r
            \<and> selector_step a st r = selector_step (a\<lparr>only_positive := False\<rparr>) st r)
       \<and> (\<forall>n. \<exists>st'. run_selector a init_selector (take n rs) = Inr st'
              \<and> (\<forall>t \<in> set (heap st'). \<forall>d. decks (snd (snd t)) = Some d \<longrightarrow> 0 < d))"
proof (intro conjI allI impI)
  assume "decks r = Some d \<and> d \<le> 0"
  with assms show "selector_step a st r = Inr (st\<lparr>processed := processed st + 1\<rparr>)"
    by (simp add: selector_step_def skipped_def)
next
  assume "decks r = None"
  then show "\<not> skipped a r" by (simp add: skipped_def)
next
  assume "decks r = None"
  then show "selector_step a st r = selector_step (a\<lparr>only_positive := False\<rparr>) st r"
    by (simp add: selector_step_def skipped_def rank_key_def)
next
  fix n
  obtain st' where st': "run_selector a init_selector (take n rs) = Inr st'"
      "sel_inv a (take n rs) st'"
    using run_selector_inv by blast
  have "\<forall>t \<in> set (heap st'). \<forall>d. decks (snd (snd t)) = Some d \<longrightarrow> 0 < d"
  proof (intro ballI allI impI)
    fix t d
    assume t: "t \<in> set (heap st')" and d: "decks (snd (snd t)) = Some d"
    from t have "snd (snd t) \<in># mset (bottom st')" by (simp add: bottom_def)
    moreover from st'(2) have "mset (bottom st') \<subseteq># mset (admitted a (take n rs))"
      by (simp add: sel_inv_def)
    ultimately have "snd (snd t) \<in> set (admitted a (take n rs))"
      by (metis mset_subset_eqD set_mset_mset)
    then have "\<not> skipped a (snd (snd t))" by (simp add: admitted_def)
    with assms d show "0 < d" by (simp add: skipped_def)
  qed
  with st'(1) show "\<exists>st'. run_selector a init_selector (take n rs) = Inr st'
      \<and> (\<forall>t \<in> set (heap st'). \<forall>d. decks (snd (snd t)) = Some d \<longrightarrow> 0 < d)" by blast
qed

theorem only_positive_skips_witness:
  "only_positive (default_args\<lparr>only_positive := True\<rparr>)
   \<and> selector_step (default_args\<lparr>only_positive := True\<rparr>) init_selector
        \<lparr>Result.name = ''Z'', edhrec_url = ''z'', decks = Some 0, error = None\<rparr>
       = Inr (init_selector\<lparr>processed := 1\<rparr>)
   \<and> selector_step (default_args\<lparr>only_positive := True\<rparr>) init_selector
        \<lparr>Result.name = ''U'', edhrec_url = ''u'', decks = None, error = None\<rparr>
       = Inr \<lparr>heap = [(- (10 ^ 12),  0,
                \<lparr>Result.name = ''U'', edhrec_url = ''u'', decks = None, error = None\<rparr>)],
              seq = 1, processed = 1\<rparr>"
  using only_positive_skips [of "default_args\<lparr>only_positive := True\<rparr>"
      "\<lparr>Result.name = ''Z'', edhrec_url = ''z'', decks = Some 0, error = None\<rparr>" 0
      init_selector "[]"]
    only_positive_skips [of "default_args\<lparr>only_positive := True\<rparr>"
      "\<lparr>Result.name = ''U'', edhrec_url = ''u'', decks = None, error = None\<rparr>" 0
      init_selector "[]"]
  by (simp add: default_args_def init_selector_def selector_step_def skipped_def
      rank_key_def heappush_def big_def)

section \<open>The rank key of a result without a metric\<close>

lemma digit_val_nonneg: "is_digit c \<Longrightarrow> 0 \<le> digit_val c"
  by (auto simp: is_digit_def digit_val_def)

lemma foldl_digits_nonneg:
  "0 \<le> acc \<Longrightarrow> \<forall>c \<in> set ds. is_digit c \<Longrightarrow>
     0 \<le> foldl (\<lambda>n c. 10 * n + digit_val c) acc ds"
proof (induction ds arbitrary: acc)
  case Nil
  then show ?case by simp
next
  case (Cons c ds)
  from Cons.prems have "0 \<le> 10 * acc + digit_val c"
    using digit_val_nonneg [of c] by simp
  with Cons show ?case by simp
qed

lemma DECKS_RE_match_group:
  assumes "DECKS_RE_match s = Some grp"
  shows "\<forall>c \<in> set grp. is_digit c \<or> c = CHR '',''"
proof (cases s)
  case Nil
  with assms show ?thesis by (simp add: DECKS_RE_match_def)
next
  case (Cons c cs)
  with assms have c: "is_digit c"
    and grp: "grp = c # takeWhile (\<lambda>d. is_digit d \<or> d = CHR '','') cs"
    by (auto simp: DECKS_RE_match_def Let_def split: if_splits)
  show ?thesis
    using c by (auto simp: grp dest: set_takeWhileD)
qed

lemma DECKS_RE_search_group:
  "DECKS_RE_search html = Some grp \<Longrightarrow> \<forall>c \<in> set grp. is_digit c \<or> c = CHR '',''"
proof (induction html)
  case Nil
  then show ?case by simp
next
  case (Cons c cs)
  show ?case
  proof (cases "DECKS_RE_match (c # cs)")
    case None
    with Cons show ?thesis by simp
  next
    case (Some g)
    with Cons.prems have "g = grp" by simp
    with Some show ?thesis by (simp add: DECKS_RE_match_group)
  qed
qed

lemma extract_deck_count_nonneg:
  assumes "extract_deck_count html = Inr (Some n)"
  shows "0 \<le> n"
proof -
  from assms obtain grp where grp: "DECKS_RE_search html = Some grp"
    and n: "int_of_digits (filter (\<lambda>c. c \<noteq> CHR '','') grp) = Inr n"
    by (auto simp: extract_deck_count_def split: option.splits sum.splits)
  from DECKS_RE_search_group [OF grp]
  have "\<forall>c \<in> set (filter (\<lambda>c. c \<noteq> CHR '','') grp). is_digit c" by auto
  then have "0 \<le> foldl (\<lambda>n c. 10 * n + digit_val c) 0 (filter (\<lambda>c. c \<noteq> CHR '','') grp)"
    by (intro foldl_digits_nonneg) simp_all
  with n show ?thesis by (simp add: int_of_digits_def split: if_splits)
qed

lemma fetch_deck_count_total: "\<exists>res. fetch_deck_count http_get cmdr = Inr res"
  by (simp add: fetch_deck_count_def split: sum.splits)

lemma fetch_deck_count_nonneg:
  assumes "fetch_deck_count http_get cmdr = Inr res" "decks res = Some n"
  shows "0 \<le> n"
proof (cases "fetch_body http_get cmdr")
  case (Inl e)
  with assms show ?thesis by (auto simp: fetch_deck_count_def)
next
  case (Inr r)
  with assms(1) have "r = res" by (simp add: fetch_deck_count_def)
  with Inr assms(2) obtain url html where "extract_deck_count html = Inr (Some n)"
    by (auto simp: fetch_body_def split: sum.splits prod.splits)
  then show ?thesis by (rule extract_deck_count_nonneg)
qed

lemma heappop_greatest_rank_key:
  assumes "heappop h = Inr (m, h')" "t \<in> set h"
  shows "- fst t \<le> - fst m"
proof -
  from assms(2) have "h \<noteq> []" by auto
  then obtain m' where "heappop h = Inr (m', remove1 m' h)" "\<forall>y \<in> set h. fst m' \<le> fst y"
    by (rule heappop_nonempty)
  with assms show ?thesis by simp
qed

lemma selector_step_push:
  assumes "\<not> skipped a r" "int (length (heap st)) < bottom_k a"
  shows "selector_step a st r
    = Inr \<lparr>heap = heap st @ [(- rank_key a r, seq st, r)], seq = seq st + 1,
           processed = processed st + 1\<rparr>"
  using assms by (simp add: selector_step_def heappush_def Let_def)

lemma selector_step_pop:
  assumes "\<not> skipped a r" "bottom_k a \<le> int (length (heap st))"
  shows "\<exists>m. m \<in> set (heap st @ [(- rank_key a r, seq st, r)])
    \<and> (\<forall>t \<in> set (heap st @ [(- rank_key a r, seq st, r)]). fst m \<le> fst t)
    \<and> selector_step a st r
        = Inr \<lparr>heap = remove1 m (heap st @ [(- rank_key a r, seq st, r)]), seq = seq st + 1,
               processed = processed st + 1\<rparr>"
proof -
  let ?h1 = "heap st @ [(- rank_key a r, seq st, r)]"
  have "?h1 \<noteq> []" by simp
  then obtain m where pop: "heappop ?h1 = Inr (m, remove1 m ?h1)"
    and m_in: "m \<in> set ?h1" and m_least: "\<forall>y \<in> set ?h1. fst m \<le> fst y"
    by (rule heappop_nonempty)
  from assms(2) have "bottom_k a < int (length ?h1)" by simp
  with assms(1) pop have "selector_step a st r
      = Inr \<lparr>heap = remove1 m ?h1, seq = seq st + 1, processed = processed st + 1\<rparr>"
    by (simp add: selector_step_def heappush_def Let_def)
  with m_in m_least show ?thesis by blast
qed

lemma absent_not_skipped: "decks r = None \<Longrightarrow> \<not> skipped a r"
  by (simp add: skipped_def)

lemma absent_rank_key:
  "decks r = None \<Longrightarrow> rank_key a r = (if include_errors a then 0 else 10 ^ 12)"
  by (simp add: rank_key_def big_def)

lemma selector_step_sentinel_evicted:
  assumes none: "decks r = None" and excl: "\<not> include_errors a"
    and full: "bottom_k a \<le> int (length (heap st))"
    and below: "\<forall>t \<in> set (heap st). - fst t < 10 ^ 12"
  shows "selector_step a st r
    = Inr \<lparr>heap = heap st, seq = seq st + 1, processed = processed st + 1\<rparr>"
proof -
  let ?x = "(- rank_key a r, seq st, r)"
  let ?h1 = "heap st @ [?x]"
  from none excl have key: "rank_key a r = 10 ^ 12" by (simp add: absent_rank_key)
  from selector_step_pop [OF absent_not_skipped [OF none] full]
  obtain m where m_in: "m \<in> set ?h1" and m_least: "\<forall>t \<in> set ?h1. fst m \<le> fst t"
    and step: "selector_step a st r
        = Inr \<lparr>heap = remove1 m ?h1, seq = seq st + 1, processed = processed st + 1\<rparr>"
    by blast
  from m_least have "fst m \<le> fst ?x" by simp
  then have le: "fst m \<le> - (10 ^ 12)" by (simp add: key)
  have "m \<notin> set (heap st)"
  proof
    assume "m \<in> set (heap st)"
    with below have "- fst m < 10 ^ 12" by blast
    with le show False by simp
  qed
  with m_in have m: "m = ?x" by simp
  have "?x \<notin> set (heap st)"
    using \<open>m \<notin> set (heap st)\<close> m by simp
  then have "remove1 ?x ?h1 = heap st" by (simp add: remove1_append)
  with step m show ?thesis by simp
qed

lemma selector_step_zero_kept:
  assumes none: "decks r = None" and incl: "include_errors a"
    and full: "bottom_k a \<le> int (length (heap st))"
    and worse: "\<exists>t \<in> set (heap st). 0 < - fst t"
  shows "\<exists>st'. selector_step a st r = Inr st' \<and> (0, seq st, r) \<in> set (heap st')"
proof -
  let ?x = "(- rank_key a r, seq st, r)"
  let ?h1 = "heap st @ [?x]"
  from none incl have key: "rank_key a r = 0" by (simp add: absent_rank_key)
  from selector_step_pop [OF absent_not_skipped [OF none] full]
  obtain m where m_least: "\<forall>t \<in> set ?h1. fst m \<le> fst t"
    and step: "selector_step a st r
        = Inr \<lparr>heap = remove1 m ?h1, seq = seq st + 1, processed = processed st + 1\<rparr>"
    by blast
  from worse obtain t where t: "t \<in> set (heap st)" "0 < - fst t" by blast
  from m_least t(1) have "fst m \<le> fst t" by simp
  with t(2) have "fst m < 0" by simp
  then have "?x \<noteq> m" by (auto simp: key)
  then have "?x \<in> set (remove1 m ?h1)" by (simp add: in_set_remove1)
  with step show ?thesis by (simp add: key)
qed

text \<open>
  C3.  A result without a metric is not skipped: the loop pushes it on the heap with the
  rank key \<open>10 ^ 12\<close> when errors are excluded from display and with \<open>0\<close> when they are
  included.  With room in the heap the entry is appended; in a full heap \<^verbatim>\<open>heappop\<close>
  then removes an entry of greatest rank key.  When errors are excluded and every entry
  of the full heap has a rank key below \<open>10 ^ 12\<close>, the entry removed is the new one.  When
  errors are included and the full heap has an entry with a positive rank key, the new
  entry stays.  The sentinel is above the rank key of every metric below \<open>10 ^ 12\<close>, and
  \<open>0\<close> is at or below the rank key of every result a fetch can produce.
\<close>

theorem rank_key_absent_metric:
  assumes "decks r = None"
  shows "rank_key a r = (if include_errors a then 0 else 10 ^ 12)
       \<and> \<not> skipped a r
       \<and> (int (length (heap st)) < bottom_k a \<longrightarrow>
            selector_step a st r
              = Inr \<lparr>heap = heap st @ [(- (if include_errors a then 0 else 10 ^ 12), seq st, r)],
                     seq = seq st + 1, processed = processed st + 1\<rparr>)
       \<and> (bottom_k a \<le> int (length (heap st)) \<longrightarrow>
            (\<exists>m. m \<in> set (heap st @ [(- (if include_errors a then 0 else 10 ^ 12), seq st, r)])
               \<and> (\<forall>t \<in> set (heap st @ [(- (if include_errors a then 0 else 10 ^ 12), seq st, r)]).
                     - fst t \<le> - fst m)
               \<and> selector_step a st r
                   = Inr \<lparr>heap = remove1 m
                            (heap st @ [(- (if include_errors a then 0 else 10 ^ 12), seq st, r)]),
                          seq = seq st + 1, processed = processed st + 1\<rparr>))
       \<and> (\<not> include_errors a \<and> bottom_k a \<le> int (length (heap st))
            \<and> (\<forall>t \<in> set (heap st). - fst t < 10 ^ 12) \<longrightarrow>
            selector_step a st r
              = Inr \<lparr>heap = heap st, seq = seq st + 1, processed = processed st + 1\<rparr>)
       \<and> (include_errors a \<and> bottom_k a \<le> int (length (heap st))
            \<and> (\<exists>t \<in> set (heap st). 0 < - fst t) \<longrightarrow>
            (\<exists>st'. selector_step a st r = Inr st' \<and> (0, seq st, r) \<in> set (heap st')))
       \<and> (\<forall>r' d. decks r' = Some d \<and> d < 10 ^ 12 \<and> \<not> include_errors a
              \<longrightarrow> rank_key a r' < rank_key a r)
       \<and> (\<forall>http_get cmdr r'. fetch_deck_count http_get cmdr = Inr r' \<and> include_errors a
              \<longrightarrow> rank_key a r \<le> rank_key a r')
       \<and> (\<forall>h m h' t. heappop h = Inr (m, h') \<and> t \<in> set h \<longrightarrow> - fst t \<le> - fst m)"
proof -
  let ?k = "if include_errors a then 0 else (10 ^ 12 :: int)"
  from assms have key: "rank_key a r = ?k" by (rule absent_rank_key)
  from assms have ns: "\<not> skipped a r" by (rule absent_not_skipped)
  have push: "int (length (heap st)) < bottom_k a \<longrightarrow>
      selector_step a st r
        = Inr \<lparr>heap = heap st @ [(- ?k, seq st, r)], seq = seq st + 1,
               processed = processed st + 1\<rparr>"
    using selector_step_push [OF ns, of st] by (simp only: key) blast
  have pop: "bottom_k a \<le> int (length (heap st)) \<longrightarrow>
      (\<exists>m. m \<in> set (heap st @ [(- ?k, seq st, r)])
         \<and> (\<forall>t \<in> set (heap st @ [(- ?k, seq st, r)]). - fst t \<le> - fst m)
         \<and> selector_step a st r
             = Inr \<lparr>heap = remove1 m (heap st @ [(- ?k, seq st, r)]),
                    seq = seq st + 1, processed = processed st + 1\<rparr>)"
  proof
    assume "bottom_k a \<le> int (length (heap st))"
    from selector_step_pop [OF ns this] obtain m where
      "m \<in> set (heap st @ [(- rank_key a r, seq st, r)])"
      "\<forall>t \<in> set (heap st @ [(- rank_key a r, seq st, r)]). fst m \<le> fst t"
      "selector_step a st r
        = Inr \<lparr>heap = remove1 m (heap st @ [(- rank_key a r, seq st, r)]), seq = seq st + 1,
               processed = processed st + 1\<rparr>"
      by blast
    then have "m \<in> set (heap st @ [(- ?k, seq st, r)])
         \<and> (\<forall>t \<in> set (heap st @ [(- ?k, seq st, r)]). - fst t \<le> - fst m)
         \<and> selector_step a st r
             = Inr \<lparr>heap = remove1 m (heap st @ [(- ?k, seq st, r)]),
                    seq = seq st + 1, processed = processed st + 1\<rparr>"
      unfolding key by simp
    then show "\<exists>m. m \<in> set (heap st @ [(- ?k, seq st, r)])
         \<and> (\<forall>t \<in> set (heap st @ [(- ?k, seq st, r)]). - fst t \<le> - fst m)
         \<and> selector_step a st r
             = Inr \<lparr>heap = remove1 m (heap st @ [(- ?k, seq st, r)]),
                    seq = seq st + 1, processed = processed st + 1\<rparr>" ..
  qed
  have evict: "\<not> include_errors a \<and> bottom_k a \<le> int (length (heap st))
        \<and> (\<forall>t \<in> set (heap st). - fst t < 10 ^ 12) \<longrightarrow>
      selector_step a st r
        = Inr \<lparr>heap = heap st, seq = seq st + 1, processed = processed st + 1\<rparr>"
    using selector_step_sentinel_evicted [OF assms, of a st] by blast
  have keep: "include_errors a \<and> bottom_k a \<le> int (length (heap st))
        \<and> (\<exists>t \<in> set (heap st). 0 < - fst t) \<longrightarrow>
      (\<exists>st'. selector_step a st r = Inr st' \<and> (0, seq st, r) \<in> set (heap st'))"
    using selector_step_zero_kept [OF assms, of a st] by blast
  have above: "\<forall>r' d. decks r' = Some d \<and> d < 10 ^ 12 \<and> \<not> include_errors a
              \<longrightarrow> rank_key a r' < rank_key a r"
    unfolding key by (auto simp: rank_key_def)
  have best: "\<forall>http_get cmdr r'. fetch_deck_count http_get cmdr = Inr r' \<and> include_errors a
              \<longrightarrow> rank_key a r \<le> rank_key a r'"
  proof (intro allI impI)
    fix http_get cmdr r'
    assume h: "fetch_deck_count http_get cmdr = Inr r' \<and> include_errors a"
    with key have k0: "rank_key a r = 0" by simp
    show "rank_key a r \<le> rank_key a r'"
    proof (cases "decks r'")
      case None
      with h k0 show ?thesis by (simp add: rank_key_def)
    next
      case (Some n)
      with h have "0 \<le> n" by (auto intro: fetch_deck_count_nonneg)
      with Some k0 show ?thesis by (simp add: rank_key_def)
    qed
  qed
  have pops: "\<forall>h m h' t. heappop h = Inr (m, h') \<and> t \<in> set h \<longrightarrow> - fst t \<le> - fst m"
  proof (intro allI impI)
    fix h m h' t
    assume "heappop h = Inr (m, h') \<and> t \<in> set h"
    then have "heappop h = Inr (m, h')" "t \<in> set h" by simp_all
    then show "- fst t \<le> - fst m" by (rule heappop_greatest_rank_key)
  qed
  from key ns push pop evict keep above best pops show ?thesis by blast
qed

theorem rank_key_absent_metric_witness:
  "decks \<lparr>Result.name = ''B'', edhrec_url = ''b'', decks = None, error = Some ''timeout''\<rparr> = None
   \<and> rank_key default_args
        \<lparr>Result.name = ''B'', edhrec_url = ''b'', decks = None, error = Some ''timeout''\<rparr>
       = 10 ^ 12
   \<and> rank_key (default_args\<lparr>include_errors := True\<rparr>)
        \<lparr>Result.name = ''B'', edhrec_url = ''b'', decks = None, error = Some ''timeout''\<rparr>
       = 0
   \<and> selector_step default_args init_selector
        \<lparr>Result.name = ''B'', edhrec_url = ''b'', decks = None, error = Some ''timeout''\<rparr>
       = Inr \<lparr>heap = [(- (10 ^ 12), 0,
                \<lparr>Result.name = ''B'', edhrec_url = ''b'', decks = None,
                 error = Some ''timeout''\<rparr>)],
              seq = 1, processed = 1\<rparr>
   \<and> selector_step (default_args\<lparr>include_errors := True\<rparr>) init_selector
        \<lparr>Result.name = ''B'', edhrec_url = ''b'', decks = None, error = Some ''timeout''\<rparr>
       = Inr \<lparr>heap = [(0, 0,
                \<lparr>Result.name = ''B'', edhrec_url = ''b'', decks = None,
                 error = Some ''timeout''\<rparr>)],
              seq = 1, processed = 1\<rparr>
   \<and> selector_step (default_args\<lparr>bottom_k := 1\<rparr>)
        \<lparr>heap = [(- 50, 0,
            \<lparr>Result.name = ''A'', edhrec_url = ''a'', decks = Some 50, error = None\<rparr>)],
         seq = 1, processed = 1\<rparr>
        \<lparr>Result.name = ''B'', edhrec_url = ''b'', decks = None, error = Some ''timeout''\<rparr>
       = Inr \<lparr>heap = [(- 50, 0,
                \<lparr>Result.name = ''A'', edhrec_url = ''a'', decks = Some 50, error = None\<rparr>)],
              seq = 2, processed = 2\<rparr>
   \<and> (\<exists>st'. selector_step (default_args\<lparr>bottom_k := 1, include_errors := True\<rparr>)
        \<lparr>heap = [(- 50, 0,
            \<lparr>Result.name = ''A'', edhrec_url = ''a'', decks = Some 50, error = None\<rparr>)],
         seq = 1, processed = 1\<rparr>
        \<lparr>Result.name = ''B'', edhrec_url = ''b'', decks = None, error = Some ''timeout''\<rparr>
       = Inr st'
      \<and> (0, 1, \<lparr>Result.name = ''B'', edhrec_url = ''b'', decks = None,
                 error = Some ''timeout''\<rparr>) \<in> set (heap st'))
   \<and> rank_key default_args
        \<lparr>Result.name = ''A'', edhrec_url = ''a'', decks = Some 50, error = None\<rparr>
       < rank_key default_args
        \<lparr>Result.name = ''B'', edhrec_url = ''b'', decks = None, error = Some ''timeout''\<rparr>"
proof -
  let ?B = "\<lparr>Result.name = ''B'', edhrec_url = ''b'', decks = None, error = Some ''timeout''\<rparr>"
  let ?A = "\<lparr>Result.name = ''A'', edhrec_url = ''a'', decks = Some 50, error = None\<rparr>"
  let ?st = "\<lparr>heap = [(- 50, 0, ?A)], seq = 1, processed = 1\<rparr>"
  let ?inc = "default_args\<lparr>include_errors := True\<rparr>"
  let ?one = "default_args\<lparr>bottom_k := 1\<rparr>"
  let ?both = "default_args\<lparr>bottom_k := 1, include_errors := True\<rparr>"
  have none: "decks ?B = None" by simp
  have excl: "\<not> include_errors default_args" "\<not> include_errors ?one"
    by (simp_all add: default_args_def)
  have incl: "include_errors ?inc" "include_errors ?both" by simp_all
  have room: "int (length (heap init_selector)) < bottom_k default_args"
    "int (length (heap init_selector)) < bottom_k ?inc"
    by (simp_all add: default_args_def init_selector_def)
  have full: "bottom_k ?one \<le> int (length (heap ?st))"
    "bottom_k ?both \<le> int (length (heap ?st))"
    by simp_all
  note t1 = rank_key_absent_metric [OF none, of default_args init_selector]
  note t2 = rank_key_absent_metric [OF none, of ?inc init_selector]
  note t3 = rank_key_absent_metric [OF none, of ?one ?st]
  note t4 = rank_key_absent_metric [OF none, of ?both ?st]
  from t1 excl(1) have k1: "rank_key default_args ?B = 10 ^ 12" by simp
  from t2 incl(1) have k2: "rank_key ?inc ?B = 0" by simp
  from t1 have "int (length (heap init_selector)) < bottom_k default_args \<longrightarrow>
      selector_step default_args init_selector ?B
        = Inr \<lparr>heap = heap init_selector
                 @ [(- (if include_errors default_args then 0 else 10 ^ 12),
                     seq init_selector, ?B)],
               seq = seq init_selector + 1, processed = processed init_selector + 1\<rparr>"
    by blast
  with room(1) excl(1) have s1: "selector_step default_args init_selector ?B
      = Inr \<lparr>heap = [(- (10 ^ 12), 0, ?B)], seq = 1, processed = 1\<rparr>"
    by (simp add: init_selector_def)
  from t2 have "int (length (heap init_selector)) < bottom_k ?inc \<longrightarrow>
      selector_step ?inc init_selector ?B
        = Inr \<lparr>heap = heap init_selector
                 @ [(- (if include_errors ?inc then 0 else 10 ^ 12), seq init_selector, ?B)],
               seq = seq init_selector + 1, processed = processed init_selector + 1\<rparr>"
    by blast
  with room(2) have s2: "selector_step ?inc init_selector ?B
      = Inr \<lparr>heap = [(0, 0, ?B)], seq = 1, processed = 1\<rparr>"
    by (simp add: init_selector_def)
  from t3 have "\<not> include_errors ?one \<and> bottom_k ?one \<le> int (length (heap ?st))
        \<and> (\<forall>t \<in> set (heap ?st). - fst t < 10 ^ 12) \<longrightarrow>
      selector_step ?one ?st ?B
        = Inr \<lparr>heap = heap ?st, seq = seq ?st + 1, processed = processed ?st + 1\<rparr>"
    by blast
  with excl(2) have s3: "selector_step ?one ?st ?B
      = Inr \<lparr>heap = [(- 50, 0, ?A)], seq = 2, processed = 2\<rparr>"
    by simp
  from t4 have "include_errors ?both \<and> bottom_k ?both \<le> int (length (heap ?st))
        \<and> (\<exists>t \<in> set (heap ?st). 0 < - fst t) \<longrightarrow>
      (\<exists>st'. selector_step ?both ?st ?B = Inr st' \<and> (0, seq ?st, ?B) \<in> set (heap st'))"
    by blast
  then have s4: "\<exists>st'. selector_step ?both ?st ?B = Inr st' \<and> (0, 1, ?B) \<in> set (heap st')"
    by simp
  from t1 have "decks ?A = Some 50 \<and> (50::int) < 10 ^ 12 \<and> \<not> include_errors default_args
              \<longrightarrow> rank_key default_args ?A < rank_key default_args ?B"
    by blast
  with excl(1) have k3: "rank_key default_args ?A < rank_key default_args ?B"
    by simp
  from none k1 k2 s1 s2 s3 s4 k3 show ?thesis by blast
qed

section \<open>The two semaphores\<close>

text \<open>
  C4, as the code has it.  The two semaphores are separate, and both sizes come from the
  one value \<^verbatim>\<open>args.concurrency\<close>: the metric pool has that size, the verification pool
  has \<^verbatim>\<open>max(2, args.concurrency // 2)\<close>.
\<close>

theorem pool_sizes_from_concurrency:
  "apply_filters_sem (main_filters a) = Inr (max 2 (args.concurrency a div 2))
   \<and> main_sem a =
       (if args.concurrency a < 0
        then Inl (ValueError ''Semaphore initial value must be >= 0'')
        else Inr (args.concurrency a))"
  by (simp add: apply_filters_sem_def main_filters_def main_sem_def Semaphore_def)

text \<open>
  Two runs that differ only in \<^verbatim>\<open>--concurrency\<close>: changing the size of the metric pool
  from 8 to 16 changes the size of the verification pool from 4 to 8.
\<close>

theorem pool_sizes_coupled:
  "main_sem (default_args\<lparr>args.ptk_strict := True, args.concurrency := 8\<rparr>) = Inr 8
   \<and> apply_filters_sem (main_filters (default_args\<lparr>args.ptk_strict := True, args.concurrency := 8\<rparr>))
       = Inr 4
   \<and> main_sem (default_args\<lparr>args.ptk_strict := True, args.concurrency := 16\<rparr>) = Inr 16
   \<and> apply_filters_sem (main_filters (default_args\<lparr>args.ptk_strict := True, args.concurrency := 16\<rparr>))
       = Inr 8"
  by (simp add: apply_filters_sem_def main_filters_def main_sem_def Semaphore_def
      default_args_def)

section \<open>Failures of a metric fetch\<close>

text \<open>
  C6.  \<^verbatim>\<open>fetch_deck_count\<close> always returns a result.  When the request raises, the result
  has the commander's name, its route address, no metric and the text of the exception;
  when the page has no match of \<^verbatim>\<open>DECKS_RE\<close>, the result has no metric and no error.
\<close>

theorem fetch_deck_count_isolates:
  "(\<exists>res. fetch_deck_count http_get cmdr = Inr res)
   \<and> (http_get (edhrec_route_url cmdr) = Inl e \<longrightarrow>
        fetch_deck_count http_get cmdr
          = Inr \<lparr>Result.name = Commander.name cmdr, edhrec_url = edhrec_route_url cmdr,
                 decks = None, error = Some (str_exn e)\<rparr>)
   \<and> (http_get (edhrec_route_url cmdr) = Inr (final_url, html) \<and> DECKS_RE_search html = None \<longrightarrow>
        fetch_deck_count http_get cmdr
          = Inr \<lparr>Result.name = Commander.name cmdr, edhrec_url = final_url,
                 decks = None, error = None\<rparr>)"
  by (auto simp: fetch_deck_count_def fetch_body_def extract_deck_count_def split: sum.splits)

theorem fetch_deck_count_isolates_witness:
  "fetch_deck_count
     (\<lambda>u. if u = ''https://edhrec.com/route/?cc=A'' then Inl (ClientError ''Timeout'')
           else Inr (''https://edhrec.com/commanders/b'', ''<p>No stats yet</p>''))
     \<lparr>Commander.name = ''A'', edhrec_route_url = ''https://edhrec.com/route/?cc=A''\<rparr>
     = Inr \<lparr>Result.name = ''A'', edhrec_url = ''https://edhrec.com/route/?cc=A'',
            decks = None, error = Some ''Timeout''\<rparr>
   \<and> DECKS_RE_search ''<p>No stats yet</p>'' = None
   \<and> fetch_deck_count
     (\<lambda>u. if u = ''https://edhrec.com/route/?cc=A'' then Inl (ClientError ''Timeout'')
           else Inr (''https://edhrec.com/commanders/b'', ''<p>No stats yet</p>''))
     \<lparr>Commander.name = ''B'', edhrec_route_url = ''https://edhrec.com/route/?cc=B''\<rparr>
     = Inr \<lparr>Result.name = ''B'', edhrec_url = ''https://edhrec.com/commanders/b'',
            decks = None, error = None\<rparr>"
proof -
  let ?http = "\<lambda>u. if u = ''https://edhrec.com/route/?cc=A'' then Inl (ClientError ''Timeout'')
           else Inr (''https://edhrec.com/commanders/b'', ''<p>No stats yet</p>'')"
  let ?A = "\<lparr>Commander.name = ''A'', edhrec_route_url = ''https://edhrec.com/route/?cc=A''\<rparr>"
  let ?B = "\<lparr>Commander.name = ''B'', edhrec_route_url = ''https://edhrec.com/route/?cc=B''\<rparr>"
  have nomatch: "DECKS_RE_search ''<p>No stats yet</p>'' = None"
    by (simp add: DECKS_RE_match_def is_digit_def)
  from fetch_deck_count_isolates [of ?http ?A "ClientError ''Timeout''"]
  have a: "fetch_deck_count ?http ?A
     = Inr \<lparr>Result.name = ''A'', edhrec_url = ''https://edhrec.com/route/?cc=A'',
            decks = None, error = Some ''Timeout''\<rparr>"
    by simp
  from fetch_deck_count_isolates [of ?http ?B _ "''https://edhrec.com/commanders/b''"
      "''<p>No stats yet</p>''"] nomatch
  have b: "fetch_deck_count ?http ?B
     = Inr \<lparr>Result.name = ''B'', edhrec_url = ''https://edhrec.com/commanders/b'',
            decks = None, error = None\<rparr>"
    by simp
  from a nomatch b show ?thesis by blast
qed

section \<open>Failures of the strict verification\<close>

lemma is_ptk_strict_no_exn: "is_ptk_strict get c \<noteq> Some (Inl e)"
  by (simp add: is_ptk_strict_def split: option.splits sum.splits)

lemma strict_checks_no_exn: "strict_checks get cs \<noteq> Some (Inl e)"
proof (induction cs)
  case Nil
  show ?case by simp
next
  case (Cons c cs)
  show ?case
    using is_ptk_strict_no_exn [of get c] Cons.IH
    by (auto split: option.splits sum.splits)
qed

text \<open>
  C7.  When the scan of the printings ends in an exception (in particular when the first
  request raises), \<^verbatim>\<open>is_ptk_strict\<close> returns the verdict of \<^verbatim>\<open>looks_like_ptk_fast\<close> for
  that card.  No exception leaves \<^verbatim>\<open>is_ptk_strict\<close>, so none leaves the strict stage.
\<close>

theorem is_ptk_strict_falls_back:
  "(prints_search_uri c = Some uri \<and> uri \<noteq> [] \<and> scan_printings get (Some uri) = Some (Inl e)
      \<longrightarrow> is_ptk_strict get c = Some (Inr (looks_like_ptk_fast c)))
   \<and> (prints_search_uri c = Some uri \<and> uri \<noteq> [] \<and> get uri = Inl e
      \<longrightarrow> is_ptk_strict get c = Some (Inr (looks_like_ptk_fast c)))
   \<and> is_ptk_strict get c \<noteq> Some (Inl e')
   \<and> strict_checks get cs \<noteq> Some (Inl e')"
proof (intro conjI impI)
  assume "prints_search_uri c = Some uri \<and> uri \<noteq> [] \<and> scan_printings get (Some uri) = Some (Inl e)"
  then show "is_ptk_strict get c = Some (Inr (looks_like_ptk_fast c))"
    by (simp add: is_ptk_strict_def)
next
  assume h: "prints_search_uri c = Some uri \<and> uri \<noteq> [] \<and> get uri = Inl e"
  then have "scan_printings get (Some uri) = Some (Inl e)"
    by (subst scan_printings.simps) simp
  with h show "is_ptk_strict get c = Some (Inr (looks_like_ptk_fast c))"
    by (simp add: is_ptk_strict_def)
next
  show "is_ptk_strict get c \<noteq> Some (Inl e')" by (rule is_ptk_strict_no_exn)
  show "strict_checks get cs \<noteq> Some (Inl e')" by (rule strict_checks_no_exn)
qed

theorem is_ptk_strict_falls_back_witness:
  "scan_printings
     (\<lambda>u. if u = ''p1'' then Inr \<lparr>data = [Some ''me3''], next_page = Some ''p2''\<rparr>
           else Inl (ClientError ''503''))
     (Some ''p1'') = Some (Inl (ClientError ''503''))
   \<and> is_ptk_strict
     (\<lambda>u. if u = ''p1'' then Inr \<lparr>data = [Some ''me3''], next_page = Some ''p2''\<rparr>
           else Inl (ClientError ''503''))
     \<lparr>type_line = Some ''Legendary Creature'', oracle_id = Some ''o1'',
      card_id = Some ''i1'', set_type = Some ''starter'', oracle_text = Some ''Horsemanship'',
      released_at = Some ''1999-05-01'', set_name = Some ''Portal Three Kingdoms'',
      set_code = Some ''PTK'', prints_search_uri = Some ''p1''\<rparr> = Some (Inr True)"
proof -
  let ?get = "\<lambda>u. if u = ''p1'' then Inr \<lparr>data = [Some ''me3''], next_page = Some ''p2''\<rparr>
           else Inl (ClientError ''503'')"
  let ?c = "\<lparr>type_line = Some ''Legendary Creature'', oracle_id = Some ''o1'',
      card_id = Some ''i1'', set_type = Some ''starter'', oracle_text = Some ''Horsemanship'',
      released_at = Some ''1999-05-01'', set_name = Some ''Portal Three Kingdoms'',
      set_code = Some ''PTK'', prints_search_uri = Some ''p1''\<rparr>"
  have scan: "scan_printings ?get (Some ''p1'') = Some (Inl (ClientError ''503''))"
    by (simp add: scan_printings.simps or_empty_def lower_def lower_char_def)
  have fast: "looks_like_ptk_fast ?c"
    by (simp add: looks_like_ptk_fast_def or_empty_def lower_def lower_char_def)
  from is_ptk_strict_falls_back [of ?c "''p1''" ?get "ClientError ''503''"] scan fast
  show ?thesis by simp
qed

section \<open>Deduplication\<close>

lemma collapse_loop_map_of:
  "map_of (collapse_loop acc cs) k =
     (case map_of acc k of
        Some c \<Rightarrow> Some c
      | None \<Rightarrow> find (\<lambda>c. is_commander_face c \<and> commander_key c = k) cs)"
proof (induction cs arbitrary: acc)
  case Nil
  show ?case by (simp split: option.splits)
next
  case (Cons c cs)
  show ?case
  proof (cases "is_commander_face c \<and> map_of acc (commander_key c) = None")
    case False
    then show ?thesis
      by (auto simp: Cons.IH Let_def split: option.splits)
  next
    case True
    have "map_of (acc @ [(commander_key c, c)]) k =
        (case map_of acc k of
           Some v \<Rightarrow> Some v
         | None \<Rightarrow> if k = commander_key c then Some c else None)"
      by (simp add: map_add_def split: option.splits)
    with True show ?thesis
      by (auto simp: Cons.IH Let_def split: option.splits)
  qed
qed

lemma collapse_loop_distinct:
  "distinct (map fst acc) \<Longrightarrow> distinct (map fst (collapse_loop acc cs))"
proof (induction cs arbitrary: acc)
  case Nil
  then show ?case by simp
next
  case (Cons c cs)
  show ?case
  proof (cases "is_commander_face c \<and> map_of acc (commander_key c) = None")
    case False
    with Cons show ?thesis by (auto simp: Let_def)
  next
    case True
    then have "commander_key c \<notin> fst ` set acc"
      by (simp add: map_of_eq_None_iff)
    with Cons.prems have "distinct (map fst (acc @ [(commander_key c, c)]))"
      by simp
    from Cons.IH [OF this] True show ?thesis by (simp add: Let_def)
  qed
qed

lemma collapse_loop_entries:
  "\<forall>e \<in> set acc. fst e = commander_key (snd e) \<and> is_commander_face (snd e) \<Longrightarrow>
   \<forall>e \<in> set (collapse_loop acc cs). fst e = commander_key (snd e) \<and> is_commander_face (snd e)"
proof (induction cs arbitrary: acc)
  case Nil
  then show ?case by simp
next
  case (Cons c cs)
  show ?case
  proof (cases "is_commander_face c \<and> map_of acc (commander_key c) = None")
    case False
    then have eq: "collapse_loop acc (c # cs) = collapse_loop acc cs"
      by (auto simp: Let_def)
    show ?thesis
      unfolding eq by (rule Cons.IH [OF Cons.prems])
  next
    case True
    then have eq: "collapse_loop acc (c # cs) = collapse_loop (acc @ [(commander_key c, c)]) cs"
      by (simp add: Let_def)
    have "\<forall>e \<in> set (acc @ [(commander_key c, c)]).
            fst e = commander_key (snd e) \<and> is_commander_face (snd e)"
    proof
      fix e
      assume "e \<in> set (acc @ [(commander_key c, c)])"
      then consider "e \<in> set acc" | "e = (commander_key c, c)" by auto
      then show "fst e = commander_key (snd e) \<and> is_commander_face (snd e)"
      proof cases
        case 1
        with Cons.prems show ?thesis by blast
      next
        case 2
        with True show ?thesis by simp
      qed
    qed
    then show ?thesis
      unfolding eq by (rule Cons.IH)
  qed
qed

text \<open>
  C8.  The pool of \<^verbatim>\<open>collapse_by_oracle\<close> has one entry for each key: its keys are
  distinct and are exactly the keys of the input cards that pass \<^verbatim>\<open>is_commander_face\<close>.
  Every entry passes that check and is the first card of the input that passes it and
  has its key.
\<close>

theorem collapse_by_oracle_first_wins:
  "distinct (map commander_key (collapse_by_oracle cards))
   \<and> commander_key ` set (collapse_by_oracle cards)
       = commander_key ` {c \<in> set cards. is_commander_face c}
   \<and> (\<forall>c \<in> set (collapse_by_oracle cards).
         is_commander_face c
         \<and> find (\<lambda>d. is_commander_face d \<and> commander_key d = commander_key c) cards = Some c)"
proof -
  let ?res = "collapse_loop [] cards"
  have ent: "\<forall>e \<in> set ?res. fst e = commander_key (snd e) \<and> is_commander_face (snd e)"
    by (rule collapse_loop_entries) simp
  have dist: "distinct (map fst ?res)"
    by (rule collapse_loop_distinct) simp
  have lookup: "map_of ?res k = find (\<lambda>d. is_commander_face d \<and> commander_key d = k) cards"
    for k
    by (simp add: collapse_loop_map_of)
  have keys: "map commander_key (collapse_by_oracle cards) = map fst ?res"
    using ent by (simp add: collapse_by_oracle_def)
  have c1: "distinct (map commander_key (collapse_by_oracle cards))"
    by (simp only: keys dist)
  have c2: "commander_key ` set (collapse_by_oracle cards)
       = commander_key ` {c \<in> set cards. is_commander_face c}"
  proof (rule set_eqI)
    fix k
    have "set (map commander_key (collapse_by_oracle cards)) = set (map fst ?res)"
      by (simp only: keys)
    then have "k \<in> commander_key ` set (collapse_by_oracle cards) \<longleftrightarrow> k \<in> fst ` set ?res"
      by simp
    also have "\<dots> \<longleftrightarrow> map_of ?res k \<noteq> None"
      by (simp add: map_of_eq_None_iff)
    also have "\<dots> \<longleftrightarrow> (\<exists>d \<in> set cards. is_commander_face d \<and> commander_key d = k)"
      by (auto simp: lookup find_None_iff)
    also have "\<dots> \<longleftrightarrow> k \<in> commander_key ` {c \<in> set cards. is_commander_face c}"
      by blast
    finally show "k \<in> commander_key ` set (collapse_by_oracle cards)
        \<longleftrightarrow> k \<in> commander_key ` {c \<in> set cards. is_commander_face c}" .
  qed
  have c3: "\<forall>c \<in> set (collapse_by_oracle cards).
         is_commander_face c
         \<and> find (\<lambda>d. is_commander_face d \<and> commander_key d = commander_key c) cards = Some c"
  proof
    fix c
    assume "c \<in> set (collapse_by_oracle cards)"
    then obtain e where e: "e \<in> set ?res" "c = snd e"
      by (auto simp: collapse_by_oracle_def)
    with ent have k: "fst e = commander_key c" and face: "is_commander_face c" by auto
    from e(2) k have "e = (commander_key c, c)"
      by (simp add: prod_eq_iff)
    with e(1) have "(commander_key c, c) \<in> set ?res"
      by simp
    with dist have "map_of ?res (commander_key c) = Some c" by simp
    with face show "is_commander_face c
         \<and> find (\<lambda>d. is_commander_face d \<and> commander_key d = commander_key c) cards = Some c"
      by (simp add: lookup)
  qed
  from c1 c2 c3 show ?thesis by blast
qed

theorem collapse_by_oracle_first_wins_witness:
  "collapse_by_oracle
     [\<lparr>type_line = Some ''Legendary Artifact'', oracle_id = Some ''o1'', card_id = Some ''i0'',
       set_type = None, oracle_text = None, released_at = None, set_name = None,
       set_code = None, prints_search_uri = None\<rparr>,
      \<lparr>type_line = Some ''Legendary Creature'', oracle_id = Some ''o1'', card_id = Some ''i1'',
       set_type = None, oracle_text = None, released_at = None, set_name = None,
       set_code = None, prints_search_uri = None\<rparr>,
      \<lparr>type_line = Some ''Legendary Creature'', oracle_id = Some ''o1'', card_id = Some ''i2'',
       set_type = None, oracle_text = None, released_at = None, set_name = None,
       set_code = None, prints_search_uri = None\<rparr>,
      \<lparr>type_line = Some ''Legendary Creature'', oracle_id = None, card_id = Some ''i3'',
       set_type = None, oracle_text = None, released_at = None, set_name = None,
       set_code = None, prints_search_uri = None\<rparr>]
     = [\<lparr>type_line = Some ''Legendary Creature'', oracle_id = Some ''o1'', card_id = Some ''i1'',
         set_type = None, oracle_text = None, released_at = None, set_name = None,
         set_code = None, prints_search_uri = None\<rparr>,
        \<lparr>type_line = Some ''Legendary Creature'', oracle_id = None, card_id = Some ''i3'',
         set_type = None, oracle_text = None, released_at = None, set_name = None,
         set_code = None, prints_search_uri = None\<rparr>]
   \<and> find (\<lambda>d. is_commander_face d \<and> commander_key d = Some ''o1'')
     [\<lparr>type_line = Some ''Legendary Artifact'', oracle_id = Some ''o1'', card_id = Some ''i0'',
       set_type = None, oracle_text = None, released_at = None, set_name = None,
       set_code = None, prints_search_uri = None\<rparr>,
      \<lparr>type_line = Some ''Legendary Creature'', oracle_id = Some ''o1'', card_id = Some ''i1'',
       set_type = None, oracle_text = None, released_at = None, set_name = None,
       set_code = None, prints_search_uri = None\<rparr>,
      \<lparr>type_line = Some ''Legendary Creature'', oracle_id = Some ''o1'', card_id = Some ''i2'',
       set_type = None, oracle_text = None, released_at = None, set_name = None,
       set_code = None, prints_search_uri = None\<rparr>,
      \<lparr>type_line = Some ''Legendary Creature'', oracle_id = None, card_id = Some ''i3'',
       set_type = None, oracle_text = None, released_at = None, set_name = None,
       set_code = None, prints_search_uri = None\<rparr>]
     = Some \<lparr>type_line = Some ''Legendary Creature'', oracle_id = Some ''o1'',
         card_id = Some ''i1'', set_type = None, oracle_text = None, released_at = None,
         set_name = None, set_code = None, prints_search_uri = None\<rparr>"
proof -
  let ?c0 = "\<lparr>type_line = Some ''Legendary Artifact'', oracle_id = Some ''o1'', card_id = Some ''i0'',
       set_type = None, oracle_text = None, released_at = None, set_name = None,
       set_code = None, prints_search_uri = None\<rparr>"
  let ?c1 = "\<lparr>type_line = Some ''Legendary Creature'', oracle_id = Some ''o1'', card_id = Some ''i1'',
       set_type = None, oracle_text = None, released_at = None, set_name = None,
       set_code = None, prints_search_uri = None\<rparr>"
  let ?c2 = "\<lparr>type_line = Some ''Legendary Creature'', oracle_id = Some ''o1'', card_id = Some ''i2'',
       set_type = None, oracle_text = None, released_at = None, set_name = None,
       set_code = None, prints_search_uri = None\<rparr>"
  let ?c3 = "\<lparr>type_line = Some ''Legendary Creature'', oracle_id = None, card_id = Some ''i3'',
       set_type = None, oracle_text = None, released_at = None, set_name = None,
       set_code = None, prints_search_uri = None\<rparr>"
  have face: "\<not> is_commander_face ?c0" "is_commander_face ?c1" "is_commander_face ?c2"
    "is_commander_face ?c3"
    by (simp_all add: is_commander_face_def or_empty_def)
  have key: "commander_key ?c0 = Some ''o1''" "commander_key ?c1 = Some ''o1''"
    "commander_key ?c2 = Some ''o1''" "commander_key ?c3 = Some ''i3''"
    by (simp_all add: commander_key_def)
  have eq: "collapse_by_oracle [?c0, ?c1, ?c2, ?c3] = [?c1, ?c3]"
    by (simp add: collapse_by_oracle_def face key Let_def)
  from collapse_by_oracle_first_wins [of "[?c0, ?c1, ?c2, ?c3]"]
  have "\<forall>c \<in> set (collapse_by_oracle [?c0, ?c1, ?c2, ?c3]).
      find (\<lambda>d. is_commander_face d \<and> commander_key d = commander_key c) [?c0, ?c1, ?c2, ?c3]
        = Some c"
    by blast
  then have "find (\<lambda>d. is_commander_face d \<and> commander_key d = commander_key ?c1)
      [?c0, ?c1, ?c2, ?c3] = Some ?c1"
    unfolding eq by simp
  then have "find (\<lambda>d. is_commander_face d \<and> commander_key d = Some ''o1'')
      [?c0, ?c1, ?c2, ?c3] = Some ?c1"
    by (simp only: key)
  with eq show ?thesis by blast
qed

section \<open>The recency predicate\<close>

lemma excluded_sync_window_zero:
  assumes "filters.recent_days f = 0"
  shows "excluded_sync strptime today (f\<lparr>exclude_recent := False\<rparr>) c
           = excluded_sync strptime today f c"
  using assms by (simp add: excluded_sync_def is_recent_def)

lemma prelim_filter_window_zero:
  assumes "filters.recent_days f = 0"
  shows "prelim_filter strptime today (f\<lparr>exclude_recent := False\<rparr>) pool
           = prelim_filter strptime today f pool"
  by (induction pool) (simp_all add: excluded_sync_window_zero [OF assms] cong: sum.case_cong)

text \<open>
  C9.  With a window of zero days \<^verbatim>\<open>is_recent\<close> is false for every card, whatever its
  date, and \<^verbatim>\<open>apply_filters_async\<close> returns what it returns with the recency rule
  switched off.
\<close>

theorem is_recent_window_zero:
  "is_recent strptime today c 0 = Inr False
   \<and> (filters.recent_days f = 0 \<longrightarrow>
        apply_filters_async get strptime today f pool
          = apply_filters_async get strptime today (f\<lparr>exclude_recent := False\<rparr>) pool)"
  by (auto simp: is_recent_def apply_filters_async_def prelim_filter_window_zero
      split: sum.splits)

theorem is_recent_window_zero_witness:
  "filters.recent_days (main_filters (default_args\<lparr>args.recent_days := 0\<rparr>)) = 0
   \<and> is_recent (\<lambda>s. if s = ''2024-01-15'' then Some 738900 else None) 738910
        \<lparr>type_line = Some ''Legendary Creature'', oracle_id = Some ''o1'', card_id = Some ''i1'',
         set_type = Some ''expansion'', oracle_text = Some ''Flying'',
         released_at = Some ''2024-01-15'',
         set_name = Some ''Alpha'', set_code = Some ''lea'', prints_search_uri = None\<rparr> 0
       = Inr False
   \<and> apply_filters_async (\<lambda>u. Inl (ClientError ''unused''))
        (\<lambda>s. if s = ''2024-01-15'' then Some 738900 else None) 738910
        (main_filters (default_args\<lparr>args.recent_days := 0\<rparr>))
        [\<lparr>type_line = Some ''Legendary Creature'', oracle_id = Some ''o1'', card_id = Some ''i1'',
          set_type = Some ''expansion'', oracle_text = Some ''Flying'',
          released_at = Some ''2024-01-15'',
          set_name = Some ''Alpha'', set_code = Some ''lea'', prints_search_uri = None\<rparr>]
       = apply_filters_async (\<lambda>u. Inl (ClientError ''unused''))
        (\<lambda>s. if s = ''2024-01-15'' then Some 738900 else None) 738910
        (main_filters (default_args\<lparr>args.recent_days := 0\<rparr>)\<lparr>exclude_recent := False\<rparr>)
        [\<lparr>type_line = Some ''Legendary Creature'', oracle_id = Some ''o1'', card_id = Some ''i1'',
          set_type = Some ''expansion'', oracle_text = Some ''Flying'',
          released_at = Some ''2024-01-15'',
          set_name = Some ''Alpha'', set_code = Some ''lea'', prints_search_uri = None\<rparr>]"
proof -
  have z: "filters.recent_days (main_filters (default_args\<lparr>args.recent_days := 0\<rparr>)) = 0"
    by (simp add: main_filters_def)
  show ?thesis
    using z is_recent_window_zero [of "\<lambda>s. if s = ''2024-01-15'' then Some 738900 else None"
      738910 _ "main_filters (default_args\<lparr>args.recent_days := 0\<rparr>)"
      "\<lambda>u. Inl (ClientError ''unused'')"]
    by blast
qed

text \<open>
  C10.  For a positive window, a card whose \<^verbatim>\<open>released_at\<close> is absent, empty or not
  accepted by \<^verbatim>\<open>strptime\<close> is not recent: \<^verbatim>\<open>is_recent\<close> returns false and does not raise.
\<close>

theorem is_recent_missing_date:
  assumes "0 < days"
    and "released_at c = None \<or> released_at c = Some []
         \<or> (\<exists>ra. released_at c = Some ra \<and> strptime ra = None)"
  shows "is_recent strptime today c days = Inr False"
  using assms by (auto simp: is_recent_def)

theorem is_recent_missing_date_witness:
  "(0::int) < 90
   \<and> is_recent (\<lambda>s. if s = ''2024-01-15'' then Some 738900 else None) 738910
        \<lparr>type_line = Some ''Legendary Creature'', oracle_id = Some ''o1'', card_id = Some ''i1'',
         set_type = Some ''expansion'', oracle_text = Some ''Flying'', released_at = None,
         set_name = Some ''Alpha'', set_code = Some ''lea'', prints_search_uri = None\<rparr> 90
       = Inr False
   \<and> is_recent (\<lambda>s. if s = ''2024-01-15'' then Some 738900 else None) 738910
        \<lparr>type_line = Some ''Legendary Creature'', oracle_id = Some ''o1'', card_id = Some ''i1'',
         set_type = Some ''expansion'', oracle_text = Some ''Flying'',
         released_at = Some ''soon'',
         set_name = Some ''Alpha'', set_code = Some ''lea'', prints_search_uri = None\<rparr> 90
       = Inr False
   \<and> is_recent (\<lambda>s. if s = ''2024-01-15'' then Some 738900 else None) 738910
        \<lparr>type_line = Some ''Legendary Creature'', oracle_id = Some ''o1'', card_id = Some ''i1'',
         set_type = Some ''expansion'', oracle_text = Some ''Flying'',
         released_at = Some ''2024-01-15'',
         set_name = Some ''Alpha'', set_code = Some ''lea'', prints_search_uri = None\<rparr> 90
       = Inr True"
proof -
  let ?p = "\<lambda>s. if s = ''2024-01-15'' then Some (738900::int) else None"
  let ?c1 = "\<lparr>type_line = Some ''Legendary Creature'', oracle_id = Some ''o1'', card_id = Some ''i1'',
         set_type = Some ''expansion'', oracle_text = Some ''Flying'', released_at = None,
         set_name = Some ''Alpha'', set_code = Some ''lea'', prints_search_uri = None\<rparr>"
  let ?c2 = "\<lparr>type_line = Some ''Legendary Creature'', oracle_id = Some ''o1'', card_id = Some ''i1'',
         set_type = Some ''expansion'', oracle_text = Some ''Flying'',
         released_at = Some ''soon'',
         set_name = Some ''Alpha'', set_code = Some ''lea'', prints_search_uri = None\<rparr>"
  have pos: "(0::int) < 90" by simp
  have a: "is_recent ?p 738910 ?c1 90 = Inr False"
    by (rule is_recent_missing_date [OF pos]) simp
  have b: "is_recent ?p 738910 ?c2 90 = Inr False"
    by (rule is_recent_missing_date [OF pos]) simp
  show ?thesis
    using pos a b by (simp add: is_recent_def timedelta_def)
qed

end
